theory Spec2Isabelle
  imports Complex_Main "HOL-Library.Multiset"
begin

section \<open>Data model\<close>

text \<open>
  The AI of \<^verbatim>\<open>chess.tsx\<close> (class \<^verbatim>\<open>ChessAI\<close>) works on values of the
  chess.js library. A piece is \<^verbatim>\<open>{type, color}\<close> (the fields \<open>ptype\<close>
  and \<open>pcolor\<close>), a verbose move carries \<^verbatim>\<open>from\<close> and \<^verbatim>\<open>to\<close> (the
  fields \<open>from_sq\<close> and \<open>to_sq\<close>) and the optional \<^verbatim>\<open>promotion\<close> and
  \<^verbatim>\<open>captured\<close> piece symbols.
\<close>

datatype color = White | Black

datatype piece_symbol = Pawn | Knight | Bishop | Rook | Queen | King

record piece =
  ptype :: piece_symbol
  pcolor :: color

record move =
  from_sq :: string
  to_sq :: string
  promotion :: "piece_symbol option"
  captured :: "piece_symbol option"

text \<open>\<^verbatim>\<open>interface AIMove { from; to; promotion? }\<close>\<close>

record aimove =
  ai_from :: string
  ai_to :: string
  ai_promotion :: "piece_symbol option"

datatype difficulty = Easy | Medium | Hard

text \<open>\<^verbatim>\<open>interface AISettings { depth; difficulty; timeLimitMs }\<close>\<close>

record aisettings =
  depth :: int
  difficulty :: difficulty
  timeLimitMs :: int

text \<open>
  The chess.js object is the rules engine, outside the repository. The AI uses
  only the methods below; \<open>make_move g m\<close> stands for the two statements
  \<^verbatim>\<open>const next = new Chess(game.fen()); next.move(move)\<close>, and
  \<open>board g rank file\<close> for \<^verbatim>\<open>game.board()[rank][file]\<close> with
  \<open>rank, file < 8\<close> (\<open>None\<close> is the empty square \<^verbatim>\<open>null\<close>).
\<close>

record 'g chess =
  moves :: "'g \<Rightarrow> move list"
  make_move :: "'g \<Rightarrow> move \<Rightarrow> 'g"
  turn :: "'g \<Rightarrow> color"
  isCheckmate :: "'g \<Rightarrow> bool"
  isDraw :: "'g \<Rightarrow> bool"
  isGameOver :: "'g \<Rightarrow> bool"
  board :: "'g \<Rightarrow> nat \<Rightarrow> nat \<Rightarrow> piece option"

text \<open>
  The two impure primitives the AI calls: \<^verbatim>\<open>Date.now()\<close> and
  \<^verbatim>\<open>Math.random()\<close>. The \<open>k\<close>-th call of \<^verbatim>\<open>Date.now()\<close> returns
  \<open>now rt k\<close> (milliseconds), the \<open>k\<close>-th call of \<^verbatim>\<open>Math.random()\<close>
  returns \<open>random rt k\<close>; the state \<open>io\<close> counts the calls made so far.
\<close>

record runtime =
  now :: "nat \<Rightarrow> int"
  random :: "nat \<Rightarrow> real"

record io =
  clock_reads :: nat
  random_draws :: nat

definition tick :: "io \<Rightarrow> io" where
  "tick s = s\<lparr>clock_reads := clock_reads s + 1\<rparr>"

definition drawn :: "io \<Rightarrow> io" where
  "drawn s = s\<lparr>random_draws := random_draws s + 1\<rparr>"

text \<open>
  A JavaScript number as the search uses it: a finite score, or one of the
  two infinities that initialise the best score, alpha and beta. Finite
  scores are real numbers: the tables and piece values are multiples of
  \<open>1/2\<close>, so the sums the evaluation forms are exact in double precision.
  The settings' \<open>depth\<close> and \<open>timeLimitMs\<close> are integers.
\<close>

datatype number = NegInfinity | Num real | Infinity

instantiation number :: linorder
begin

fun less_eq_number :: "number \<Rightarrow> number \<Rightarrow> bool" where
  "less_eq_number NegInfinity _ = True"
| "less_eq_number _ Infinity = True"
| "less_eq_number (Num a) (Num b) = (a \<le> b)"
| "less_eq_number _ _ = False"

definition less_number :: "number \<Rightarrow> number \<Rightarrow> bool" where
  "less_number (x::number) y = (x \<le> y \<and> \<not> y \<le> x)"

instance
proof
  fix x y z :: number
  show "(x < y) = (x \<le> y \<and> \<not> y \<le> x)"
    by (simp add: less_number_def)
  show "x \<le> x"
    by (cases x) simp_all
  show "x \<le> y \<Longrightarrow> y \<le> z \<Longrightarrow> x \<le> z"
    by (cases x; cases y; cases z) simp_all
  show "x \<le> y \<Longrightarrow> y \<le> x \<Longrightarrow> x = y"
    by (cases x; cases y) simp_all
  show "x \<le> y \<or> y \<le> x"
    by (cases x; cases y) auto
qed

end

section \<open>Evaluation tables\<close>

fun PIECE_VALUES :: "piece_symbol \<Rightarrow> real" where
  "PIECE_VALUES Pawn = 1"
| "PIECE_VALUES Knight = 3"
| "PIECE_VALUES Bishop = 3"
| "PIECE_VALUES Rook = 5"
| "PIECE_VALUES Queen = 9"
| "PIECE_VALUES King = 100"

definition PAWN_POSITION_VALUES :: "real list list" where
  "PAWN_POSITION_VALUES =
   [[0, 0, 0, 0, 0, 0, 0, 0],
    [5, 5, 5, 5, 5, 5, 5, 5],
    [1, 1, 2, 3, 3, 2, 1, 1],
    [0.5, 0.5, 1, 2.5, 2.5, 1, 0.5, 0.5],
    [0, 0, 0, 2, 2, 0, 0, 0],
    [0.5, -0.5, -1, 0, 0, -1, -0.5, 0.5],
    [0.5, 1, 1, -2, -2, 1, 1, 0.5],
    [0, 0, 0, 0, 0, 0, 0, 0]]"

definition KNIGHT_POSITION_VALUES :: "real list list" where
  "KNIGHT_POSITION_VALUES =
   [[-5, -4, -3, -3, -3, -3, -4, -5],
    [-4, -2, 0, 0, 0, 0, -2, -4],
    [-3, 0, 1, 1.5, 1.5, 1, 0, -3],
    [-3, 0.5, 1.5, 2, 2, 1.5, 0.5, -3],
    [-3, 0, 1.5, 2, 2, 1.5, 0, -3],
    [-3, 0.5, 1, 1.5, 1.5, 1, 0.5, -3],
    [-4, -2, 0, 0.5, 0.5, 0, -2, -4],
    [-5, -4, -3, -3, -3, -3, -4, -5]]"

definition BISHOP_POSITION_VALUES :: "real list list" where
  "BISHOP_POSITION_VALUES =
   [[-2, -1, -1, -1, -1, -1, -1, -2],
    [-1, 0, 0, 0, 0, 0, 0, -1],
    [-1, 0, 0.5, 1, 1, 0.5, 0, -1],
    [-1, 0.5, 0.5, 1, 1, 0.5, 0.5, -1],
    [-1, 0, 1, 1, 1, 1, 0, -1],
    [-1, 1, 1, 1, 1, 1, 1, -1],
    [-1, 0.5, 0, 0, 0, 0, 0.5, -1],
    [-2, -1, -1, -1, -1, -1, -1, -2]]"

definition ROOK_POSITION_VALUES :: "real list list" where
  "ROOK_POSITION_VALUES =
   [[0, 0, 0, 0, 0, 0, 0, 0],
    [0.5, 1, 1, 1, 1, 1, 1, 0.5],
    [-0.5, 0, 0, 0, 0, 0, 0, -0.5],
    [-0.5, 0, 0, 0, 0, 0, 0, -0.5],
    [-0.5, 0, 0, 0, 0, 0, 0, -0.5],
    [-0.5, 0, 0, 0, 0, 0, 0, -0.5],
    [-0.5, 0, 0, 0, 0, 0, 0, -0.5],
    [0, 0, 0, 0.5, 0.5, 0, 0, 0]]"

definition QUEEN_POSITION_VALUES :: "real list list" where
  "QUEEN_POSITION_VALUES =
   [[-2, -1, -1, -0.5, -0.5, -1, -1, -2],
    [-1, 0, 0, 0, 0, 0, 0, -1],
    [-1, 0, 0.5, 0.5, 0.5, 0.5, 0, -1],
    [-0.5, 0, 0.5, 0.5, 0.5, 0.5, 0, -0.5],
    [0, 0, 0.5, 0.5, 0.5, 0.5, 0, -0.5],
    [-1, 0.5, 0.5, 0.5, 0.5, 0.5, 0, -1],
    [-1, 0, 0.5, 0, 0, 0, 0, -1],
    [-2, -1, -1, -0.5, -0.5, -1, -1, -2]]"

definition KING_POSITION_VALUES :: "real list list" where
  "KING_POSITION_VALUES =
   [[-3, -4, -4, -5, -5, -4, -4, -3],
    [-3, -4, -4, -5, -5, -4, -4, -3],
    [-3, -4, -4, -5, -5, -4, -4, -3],
    [-3, -4, -4, -5, -5, -4, -4, -3],
    [-2, -3, -3, -4, -4, -3, -3, -2],
    [-1, -2, -2, -2, -2, -2, -2, -1],
    [2, 2, 0, 0, 0, 0, 2, 2],
    [2, 3, 1, 0, 0, 1, 3, 2]]"

text \<open>
  \<^verbatim>\<open>getPositionTable\<close>: the \<^verbatim>\<open>default\<close> branch of the source's switch
  (an all-zero table) is unreachable, a chess.js piece symbol being one of the six.
\<close>

fun getPositionTable :: "piece_symbol \<Rightarrow> real list list" where
  "getPositionTable Pawn = PAWN_POSITION_VALUES"
| "getPositionTable Knight = KNIGHT_POSITION_VALUES"
| "getPositionTable Bishop = BISHOP_POSITION_VALUES"
| "getPositionTable Rook = ROOK_POSITION_VALUES"
| "getPositionTable Queen = QUEEN_POSITION_VALUES"
| "getPositionTable King = KING_POSITION_VALUES"

text \<open>
  \<^verbatim>\<open>getPositionValue(piece, rank, file)\<close>; its one caller passes
  \<open>rank, file < 8\<close>, the indices of \<^verbatim>\<open>game.board()\<close>, so both reads are in range.
\<close>

definition getPositionValue :: "piece \<Rightarrow> nat \<Rightarrow> nat \<Rightarrow> real" where
  "getPositionValue piece rank file =
     (let positionValues = getPositionTable (ptype piece);
          actualRank = (if pcolor piece = White then 7 - rank else rank)
      in positionValues ! actualRank ! file)"

section \<open>Position evaluation\<close>

text \<open>The body of the two nested loops of \<^verbatim>\<open>evaluatePosition\<close> at one square.\<close>

definition addSquare :: "'g chess \<Rightarrow> 'g \<Rightarrow> nat \<Rightarrow> nat \<Rightarrow> real \<Rightarrow> real" where
  "addSquare ch game rank file score =
     (case board ch game rank file of
        None \<Rightarrow> score
      | Some piece \<Rightarrow>
          (let pieceValue = PIECE_VALUES (ptype piece);
               positionValue = getPositionValue piece rank file;
               totalValue = pieceValue + positionValue
           in if pcolor piece = White then score + totalValue else score - totalValue))"

definition boardScore :: "'g chess \<Rightarrow> 'g \<Rightarrow> real" where
  "boardScore ch game =
     fold (\<lambda>rank. fold (\<lambda>file. addSquare ch game rank file) [0..<8]) [0..<8] 0"

text \<open>
  \<^verbatim>\<open>evaluatePosition\<close>: the terminal scores are returned before the noise is
  added; a noisy evaluation draws one random number.
\<close>

definition evaluatePosition ::
  "'g chess \<Rightarrow> runtime \<Rightarrow> aisettings \<Rightarrow> 'g \<Rightarrow> io \<Rightarrow> real \<times> io" where
  "evaluatePosition ch rt st game s =
     (if isCheckmate ch game then ((if turn ch game = White then -1000 else 1000), s)
      else if isDraw ch game then (0, s)
      else
        (let score = boardScore ch game
         in if difficulty st = Easy
            then (score + (random rt (random_draws s) - 0.5) * 2, drawn s)
            else if difficulty st = Medium
            then (score + (random rt (random_draws s) - 0.5) * 1, drawn s)
            else (score, s)))"

section \<open>Move ordering\<close>

text \<open>
  The comparator \<^verbatim>\<open>(a, b) => (b.captured ? 1 : 0) - (a.captured ? 1 : 0)\<close>
  given to \<^verbatim>\<open>Array.prototype.sort\<close>, which is a stable sort (ECMAScript 2019):
  ascending in the key \<open>- (captured ? 1 : 0)\<close>.
\<close>

definition isCapture :: "move \<Rightarrow> bool" where
  "isCapture m = (captured m \<noteq> None)"

definition captureKey :: "move \<Rightarrow> int" where
  "captureKey m = - (if isCapture m then 1 else 0)"

definition orderMoves :: "move list \<Rightarrow> move list" where
  "orderMoves ms = sort_key captureKey ms"

section \<open>Minimax with alpha-beta pruning\<close>

text \<open>
  The two \<^verbatim>\<open>for\<close> loops of \<^verbatim>\<open>minimax\<close>, over the moves still to
  visit; \<open>recurse\<close> is the recursive call one ply deeper. The loop state is
  \<open>maxEval\<close> (\<open>minEval\<close>), \<open>alpha\<close> (\<open>beta\<close>) and the call counters.
\<close>

fun maxLoop ::
  "'g chess \<Rightarrow> ('g \<Rightarrow> number \<Rightarrow> number \<Rightarrow> io \<Rightarrow> number \<times> io) \<Rightarrow> 'g \<Rightarrow> move list
     \<Rightarrow> number \<Rightarrow> number \<Rightarrow> number \<Rightarrow> io \<Rightarrow> number \<times> io" where
  "maxLoop ch recurse game [] maxEval alpha beta s = (maxEval, s)"
| "maxLoop ch recurse game (move # rest) maxEval alpha beta s =
     (let newGame = make_move ch game move;
          (evaluation, s') = recurse newGame alpha beta s;
          maxEval' = max maxEval evaluation;
          alpha' = max alpha evaluation
      in if beta \<le> alpha' then (maxEval', s')
         else maxLoop ch recurse game rest maxEval' alpha' beta s')"

fun minLoop ::
  "'g chess \<Rightarrow> ('g \<Rightarrow> number \<Rightarrow> number \<Rightarrow> io \<Rightarrow> number \<times> io) \<Rightarrow> 'g \<Rightarrow> move list
     \<Rightarrow> number \<Rightarrow> number \<Rightarrow> number \<Rightarrow> io \<Rightarrow> number \<times> io" where
  "minLoop ch recurse game [] minEval alpha beta s = (minEval, s)"
| "minLoop ch recurse game (move # rest) minEval alpha beta s =
     (let newGame = make_move ch game move;
          (evaluation, s') = recurse newGame alpha beta s;
          minEval' = min minEval evaluation;
          beta' = min beta evaluation
      in if beta' \<le> alpha then (minEval', s')
         else minLoop ch recurse game rest minEval' alpha beta' s')"

text \<open>
  \<^verbatim>\<open>minimax(game, depth, isMaximizing, alpha, beta, deadline)\<close>. Every call
  reads the clock once, in the first test of its first line; at depth 0 the
  outcome of that line is the evaluation whatever the clock says. The depth
  is a natural number: the one external caller passes \<open>depth - 1\<close> for a loop
  counter \<open>depth \<ge> 1\<close>.
\<close>

definition evaluateLeaf ::
  "'g chess \<Rightarrow> runtime \<Rightarrow> aisettings \<Rightarrow> 'g \<Rightarrow> io \<Rightarrow> number \<times> io" where
  "evaluateLeaf ch rt st game s =
     (let (score, s') = evaluatePosition ch rt st game s in (Num score, s'))"

fun minimax ::
  "'g chess \<Rightarrow> runtime \<Rightarrow> aisettings \<Rightarrow> int \<Rightarrow> nat \<Rightarrow> 'g \<Rightarrow> bool
     \<Rightarrow> number \<Rightarrow> number \<Rightarrow> io \<Rightarrow> number \<times> io" where
  "minimax ch rt st deadline 0 game isMaximizing alpha beta s =
     evaluateLeaf ch rt st game (tick s)"
| "minimax ch rt st deadline (Suc d) game isMaximizing alpha beta s =
     (if now rt (clock_reads s) > deadline \<or> isGameOver ch game
      then evaluateLeaf ch rt st game (tick s)
      else
        (let ms = orderMoves (moves ch game)
         in if isMaximizing
            then maxLoop ch (\<lambda>g. minimax ch rt st deadline d g False) game ms
                   NegInfinity alpha beta (tick s)
            else minLoop ch (\<lambda>g. minimax ch rt st deadline d g True) game ms
                   Infinity alpha beta (tick s)))"

section \<open>Move selection\<close>

definition toAIMove :: "move \<Rightarrow> aimove" where
  "toAIMove m = \<lparr>ai_from = from_sq m, ai_to = to_sq m, ai_promotion = promotion m\<rparr>"

text \<open>
  The comparison both one-ply loops make: White keeps a strictly greater score,
  Black a strictly smaller one.
\<close>

definition better :: "bool \<Rightarrow> number \<Rightarrow> number \<Rightarrow> bool" where
  "better isWhite score bestScore =
     (if isWhite then score > bestScore else score < bestScore)"

text \<open>The medium tier's loop over the ordered moves.\<close>

fun mediumLoop ::
  "'g chess \<Rightarrow> runtime \<Rightarrow> aisettings \<Rightarrow> bool \<Rightarrow> 'g \<Rightarrow> move list
     \<Rightarrow> number \<times> move option \<Rightarrow> io \<Rightarrow> (number \<times> move option) \<times> io" where
  "mediumLoop ch rt st isWhite game [] best s = (best, s)"
| "mediumLoop ch rt st isWhite game (move # rest) (bestScore, bestMove) s =
     (let next = make_move ch game move;
          (score, s') = evaluatePosition ch rt st next s
      in if better isWhite (Num score) bestScore
         then mediumLoop ch rt st isWhite game rest (Num score, Some move) s'
         else mediumLoop ch rt st isWhite game rest (bestScore, bestMove) s')"

text \<open>
  The hard tier's loop over the root moves at one depth. A clock reading past
  the deadline leaves the loop (\<^verbatim>\<open>break\<close>) with the best move found so far
  at this depth.
\<close>

fun rootLoop ::
  "'g chess \<Rightarrow> runtime \<Rightarrow> aisettings \<Rightarrow> int \<Rightarrow> int \<Rightarrow> bool \<Rightarrow> 'g \<Rightarrow> move list
     \<Rightarrow> number \<times> move option \<Rightarrow> io \<Rightarrow> (number \<times> move option) \<times> io" where
  "rootLoop ch rt st deadline dep isRootWhite game [] best s = (best, s)"
| "rootLoop ch rt st deadline dep isRootWhite game (move # rest)
       (bestScoreAtDepth, bestMoveAtDepth) s =
     (if now rt (clock_reads s) > deadline
      then ((bestScoreAtDepth, bestMoveAtDepth), tick s)
      else
        (let newGame = make_move ch game move;
             (score, s') = minimax ch rt st deadline (nat (dep - 1)) newGame
                             (turn ch newGame = White) NegInfinity Infinity (tick s)
         in if better isRootWhite score bestScoreAtDepth
            then rootLoop ch rt st deadline dep isRootWhite game rest (score, Some move) s'
            else rootLoop ch rt st deadline dep isRootWhite game rest
                   (bestScoreAtDepth, bestMoveAtDepth) s'))"

text \<open>
  The iterative deepening loop \<^verbatim>\<open>for (depth = 1; depth <= settings.depth; depth++)\<close>,
  from the counter value \<open>dep\<close> on.
\<close>

function deepen ::
  "'g chess \<Rightarrow> runtime \<Rightarrow> aisettings \<Rightarrow> int \<Rightarrow> bool \<Rightarrow> 'g \<Rightarrow> move list
     \<Rightarrow> int \<Rightarrow> move option \<Rightarrow> io \<Rightarrow> move option \<times> io" where
  "deepen ch rt st deadline isRootWhite game orderedMoves dep selectedMove s =
     (if dep \<le> depth st
      then
        (let ((bestScoreAtDepth, bestMoveAtDepth), s') =
               rootLoop ch rt st deadline dep isRootWhite game orderedMoves
                 ((if isRootWhite then NegInfinity else Infinity), None) s;
             selectedMove' = (case bestMoveAtDepth of Some m \<Rightarrow> Some m | None \<Rightarrow> selectedMove)
         in if now rt (clock_reads s') > deadline
            then (selectedMove', tick s')
            else deepen ch rt st deadline isRootWhite game orderedMoves (dep + 1)
                   selectedMove' (tick s'))
      else (selectedMove, s))"
  by pat_completeness auto
termination
  by (relation "measure (\<lambda>(ch, rt, st, deadline, isRootWhite, game, orderedMoves, dep, selectedMove, s).
        nat (depth st + 1 - dep))") auto

declare deepen.simps [simp del]

text \<open>
  Reading a property of \<^verbatim>\<open>undefined\<close> throws; it is the one exception
  \<^verbatim>\<open>getBestMove\<close> can raise by itself (the easy tier's \<^verbatim>\<open>pool[i]\<close>
  for an index outside the pool).
\<close>

datatype error = TypeError

text \<open>\<^verbatim>\<open>getBestMove(game)\<close>; the result \<open>None\<close> is \<^verbatim>\<open>null\<close>.\<close>

definition getBestMove ::
  "'g chess \<Rightarrow> runtime \<Rightarrow> aisettings \<Rightarrow> 'g \<Rightarrow> io \<Rightarrow> (error + aimove option) \<times> io" where
  "getBestMove ch rt st game s =
     (let ms = moves ch game
      in if length ms = 0 then (Inr None, s)
      else if difficulty st = Easy then
        (let capturing = filter isCapture ms;
             pool = (if length capturing > 0 then capturing else ms);
             i = \<lfloor>random rt (random_draws s) * real (length pool)\<rfloor>
         in if 0 \<le> i \<and> i < int (length pool)
            then (Inr (Some (toAIMove (pool ! nat i))), drawn s)
            else (Inl TypeError, drawn s))
      else if difficulty st = Medium then
        (let isWhite = (turn ch game = White);
             ordered = orderMoves ms;
             ((bestScore, bestMove), s') =
               mediumLoop ch rt st isWhite game ordered
                 ((if isWhite then NegInfinity else Infinity), None) s
         in case bestMove of
              Some m \<Rightarrow> (Inr (Some (toAIMove m)), s')
            | None \<Rightarrow> (Inr (Some (toAIMove (hd ms))), s'))
      else
        (let deadline = now rt (clock_reads s)
                          + (if timeLimitMs st = 0 then 300 else timeLimitMs st);
             isRootWhite = (turn ch game = White);
             orderedMoves = orderMoves ms;
             (selectedMove, s') =
               deepen ch rt st deadline isRootWhite game orderedMoves 1 None (tick s)
         in (Inr (map_option toAIMove selectedMove), s')))"

section \<open>A small game for concrete evaluation\<close>

text \<open>
  A five-position game tree in the interface of the rules engine. Position 0
  is White to move with two legal moves, listed by the engine as the quiet
  \<open>quietMate\<close> (to position 2, checkmate) and the capture \<open>grab\<close> (to position
  1). In position 1 Black has the single reply \<open>recapture\<close> (to position 3),
  where White mates with \<open>followUp\<close> (to position 4). The numbers above 4
  stand for drawn positions without moves; none is reachable. Every position
  shows the two kings on their home squares.
\<close>

definition quietMate :: move where
  "quietMate = \<lparr>from_sq = ''h5'', to_sq = ''f7'', promotion = None, captured = None\<rparr>"

definition grab :: move where
  "grab = \<lparr>from_sq = ''c4'', to_sq = ''d5'', promotion = None, captured = Some Pawn\<rparr>"

definition recapture :: move where
  "recapture = \<lparr>from_sq = ''d8'', to_sq = ''d5'', promotion = None, captured = Some Bishop\<rparr>"

definition followUp :: move where
  "followUp = \<lparr>from_sq = ''h5'', to_sq = ''e8'', promotion = None, captured = None\<rparr>"

definition demoBoard :: "nat \<Rightarrow> nat \<Rightarrow> piece option" where
  "demoBoard rank file =
     (if rank = 7 \<and> file = 4 then Some \<lparr>ptype = King, pcolor = White\<rparr>
      else if rank = 0 \<and> file = 4 then Some \<lparr>ptype = King, pcolor = Black\<rparr>
      else None)"

definition demo :: "nat chess" where
  "demo =
     \<lparr>moves = (\<lambda>g. if g = 0 then [quietMate, grab]
                    else if g = 1 then [recapture]
                    else if g = 3 then [followUp] else []),
      make_move = (\<lambda>g m. if g = 0 then (if isCapture m then 1 else 2)
                          else if g = 1 then 3
                          else if g = 3 then 4 else g),
      turn = (\<lambda>g. if g = 0 \<or> g = 3 then White else Black),
      isCheckmate = (\<lambda>g. g = 2 \<or> g = 4),
      isDraw = (\<lambda>g. 4 < g),
      isGameOver = (\<lambda>g. g = 2 \<or> 3 < g),
      board = (\<lambda>g. demoBoard)\<rparr>"

text \<open>A clock that stands still, and one that jumps two seconds after its first reading.\<close>

definition stillClock :: runtime where
  "stillClock = \<lparr>now = (\<lambda>k. 0), random = (\<lambda>k. 1 / 2)\<rparr>"

definition jumpClock :: runtime where
  "jumpClock = \<lparr>now = (\<lambda>k. if k = 0 then 0 else 2000), random = (\<lambda>k. 1 / 2)\<rparr>"

definition io0 :: io where
  "io0 = \<lparr>clock_reads = 0, random_draws = 0\<rparr>"

definition settingsFor :: "difficulty \<Rightarrow> int \<Rightarrow> int \<Rightarrow> aisettings" where
  "settingsFor d dep ms = \<lparr>depth = dep, difficulty = d, timeLimitMs = ms\<rparr>"

text \<open>
  A clock that passes the deadline between its sixth and seventh reading, a runtime
  whose random source returns zero, and the counters after \<open>c\<close> clock readings
  and \<open>r\<close> random draws.
\<close>

definition midClock :: runtime where
  "midClock = \<lparr>now = (\<lambda>k. if k < 6 then 0 else 2000), random = (\<lambda>k. 1 / 2)\<rparr>"

definition zeroRandom :: runtime where
  "zeroRandom = \<lparr>now = (\<lambda>k. 0), random = (\<lambda>k. 0)\<rparr>"

definition ioAt :: "nat \<Rightarrow> nat \<Rightarrow> io" where
  "ioAt c r = \<lparr>clock_reads = c, random_draws = r\<rparr>"

section \<open>Colour-mirrored positions\<close>

text \<open>
  \<open>colorMirrored ch g g'\<close>: the position \<open>g'\<close> is \<open>g\<close> with the colours
  exchanged. Every piece of \<open>g\<close> stands in \<open>g'\<close> on the rank-mirrored square
  with the other colour, the other side is to move, and the rules engine
  reports the same checkmate and draw status.
\<close>

definition swapColor :: "color \<Rightarrow> color" where
  "swapColor c = (if c = White then Black else White)"

definition mirrorPiece :: "piece \<Rightarrow> piece" where
  "mirrorPiece p = p\<lparr>pcolor := swapColor (pcolor p)\<rparr>"

definition colorMirrored :: "'g chess \<Rightarrow> 'g \<Rightarrow> 'g \<Rightarrow> bool" where
  "colorMirrored ch g g' =
     ((\<forall>rank \<in> set [0..<8]. \<forall>file \<in> set [0..<8].
         board ch g' rank file = map_option mirrorPiece (board ch g (7 - rank) file)) \<and>
      turn ch g' = swapColor (turn ch g) \<and>
      isCheckmate ch g' = isCheckmate ch g \<and>
      isDraw ch g' = isDraw ch g)"

text \<open>
  Two positions that mirror each other: the kings at home and a White pawn on
  d2, respectively a Black pawn on d7.
\<close>

definition pawnBoard :: "bool \<Rightarrow> nat \<Rightarrow> nat \<Rightarrow> piece option" where
  "pawnBoard flipped rank file =
     (if rank = 7 \<and> file = 4 then Some \<lparr>ptype = King, pcolor = White\<rparr>
      else if rank = 0 \<and> file = 4 then Some \<lparr>ptype = King, pcolor = Black\<rparr>
      else if \<not> flipped \<and> rank = 6 \<and> file = 3 then Some \<lparr>ptype = Pawn, pcolor = White\<rparr>
      else if flipped \<and> rank = 1 \<and> file = 3 then Some \<lparr>ptype = Pawn, pcolor = Black\<rparr>
      else None)"

definition pawnDemo :: "bool chess" where
  "pawnDemo =
     \<lparr>moves = (\<lambda>g. []),
      make_move = (\<lambda>g m. g),
      turn = (\<lambda>g. if g then Black else White),
      isCheckmate = (\<lambda>g. False),
      isDraw = (\<lambda>g. False),
      isGameOver = (\<lambda>g. False),
      board = pawnBoard\<rparr>"

text \<open>What one square contributes to the score.\<close>

definition squareValue :: "'g chess \<Rightarrow> 'g \<Rightarrow> nat \<Rightarrow> nat \<Rightarrow> real" where
  "squareValue ch game rank file = addSquare ch game rank file 0"

section \<open>Relating two runs\<close>

text \<open>
  \<open>clockOnly f f'\<close>: started with equal clock counters, the two computations
  return the same value and read the clock equally often, and \<open>f\<close> draws no
  random number.
\<close>

definition clockOnly :: "(io \<Rightarrow> 'a \<times> io) \<Rightarrow> (io \<Rightarrow> 'a \<times> io) \<Rightarrow> bool" where
  "clockOnly f f' =
     (\<forall>s s'. clock_reads s' = clock_reads s \<longrightarrow>
        fst (f' s') = fst (f s) \<and>
        clock_reads (snd (f' s')) = clock_reads (snd (f s)) \<and>
        random_draws (snd (f s)) = random_draws s)"

section \<open>The unpruned reference search\<close>

text \<open>
  The reference of the alpha-beta equivalence, written from the specification
  and not from \<^verbatim>\<open>minimax\<close>: the noise-free static score, a full minimax
  that visits every move of every node down to the depth limit (no window, no
  cut, no clock), the selection of the first strictly better root move, and
  the iteration over the depths 1 to \<open>maxDepth\<close> that keeps the choice of the
  last depth that made one.
\<close>

definition staticScore :: "'g chess \<Rightarrow> 'g \<Rightarrow> real" where
  "staticScore ch game =
     (if isCheckmate ch game then (if turn ch game = White then -1000 else 1000)
      else if isDraw ch game then 0
      else boardScore ch game)"

fun fullMinimax :: "'g chess \<Rightarrow> nat \<Rightarrow> 'g \<Rightarrow> bool \<Rightarrow> number" where
  "fullMinimax ch 0 game isMaximizing = Num (staticScore ch game)"
| "fullMinimax ch (Suc d) game isMaximizing =
     (if isGameOver ch game then Num (staticScore ch game)
      else
        (let children = map (make_move ch game) (orderMoves (moves ch game))
         in if isMaximizing
            then fold max (map (\<lambda>g. fullMinimax ch d g False) children) NegInfinity
            else fold min (map (\<lambda>g. fullMinimax ch d g True) children) Infinity))"

fun firstBest :: "bool \<Rightarrow> (number \<times> move) list \<Rightarrow> number \<times> move option \<Rightarrow> number \<times> move option" where
  "firstBest isWhite [] best = best"
| "firstBest isWhite ((score, move) # rest) (bestScore, bestMove) =
     (if better isWhite score bestScore
      then firstBest isWhite rest (score, Some move)
      else firstBest isWhite rest (bestScore, bestMove))"

definition fullRootScores :: "'g chess \<Rightarrow> 'g \<Rightarrow> move list \<Rightarrow> int \<Rightarrow> (number \<times> move) list" where
  "fullRootScores ch game ms dep =
     map (\<lambda>move. (let newGame = make_move ch game move
                   in fullMinimax ch (nat (dep - 1)) newGame (turn ch newGame = White), move)) ms"

definition fullSearch :: "'g chess \<Rightarrow> int \<Rightarrow> 'g \<Rightarrow> move option" where
  "fullSearch ch maxDepth game =
     (let isRootWhite = (turn ch game = White);
          orderedMoves = orderMoves (moves ch game)
      in fold (\<lambda>dep selectedMove.
                 case snd (firstBest isRootWhite (fullRootScores ch game orderedMoves dep)
                             ((if isRootWhite then NegInfinity else Infinity), None)) of
                   Some m \<Rightarrow> Some m
                 | None \<Rightarrow> selectedMove)
           [1..maxDepth] None)"

text \<open>
  The fail-soft relation between the true value \<open>v\<close> of a node and the result
  \<open>r\<close> of a search with the window \<open>(a, b)\<close>: a result at or below \<open>a\<close> is an
  upper bound, one at or above \<open>b\<close> a lower bound, one inside the window exact.
\<close>

definition failSoft :: "number \<Rightarrow> number \<Rightarrow> number \<Rightarrow> number \<Rightarrow> bool" where
  "failSoft a b v r = ((r \<le> a \<longrightarrow> v \<le> r) \<and> (b \<le> r \<longrightarrow> r \<le> v) \<and> (a < r \<and> r < b \<longrightarrow> v = r))"

section \<open>The trace of the search under a deadline\<close>

text \<open>
  The reference of the timeout behaviour, written from the specification
  (the steps of the iterative deepening) and not from the loops of
  \<^verbatim>\<open>getBestMove\<close>. \<open>scoredBeforeDeadline\<close> lists, for one depth, the root
  moves scored before a clock reading past the deadline stops the root loop,
  each with its score. \<open>depthsRun\<close> lists these per depth, for the depths
  started before a late reading after a depth stops the deepening.
  \<open>bestOfDepth\<close> is the first strictly better move of such a list, and
  \<open>lastFound\<close> the best move of the last depth that found one.
\<close>

fun scoredBeforeDeadline ::
  "'g chess \<Rightarrow> runtime \<Rightarrow> aisettings \<Rightarrow> int \<Rightarrow> int \<Rightarrow> 'g \<Rightarrow> move list \<Rightarrow> io
     \<Rightarrow> (number \<times> move) list \<times> io" where
  "scoredBeforeDeadline ch rt st deadline dep game [] s = ([], s)"
| "scoredBeforeDeadline ch rt st deadline dep game (move # rest) s =
     (if now rt (clock_reads s) > deadline then ([], tick s)
      else
        (let newGame = make_move ch game move;
             (score, s') = minimax ch rt st deadline (nat (dep - 1)) newGame
                             (turn ch newGame = White) NegInfinity Infinity (tick s);
             (scored, s'') = scoredBeforeDeadline ch rt st deadline dep game rest s'
         in ((score, move) # scored, s'')))"

function depthsRun ::
  "'g chess \<Rightarrow> runtime \<Rightarrow> aisettings \<Rightarrow> int \<Rightarrow> 'g \<Rightarrow> move list \<Rightarrow> int \<Rightarrow> io
     \<Rightarrow> (number \<times> move) list list" where
  "depthsRun ch rt st deadline game orderedMoves dep s =
     (if dep \<le> depth st
      then
        (let (scored, s') = scoredBeforeDeadline ch rt st deadline dep game orderedMoves s
         in if now rt (clock_reads s') > deadline
            then [scored]
            else scored # depthsRun ch rt st deadline game orderedMoves (dep + 1) (tick s'))
      else [])"
  by pat_completeness auto
termination
  by (relation "measure (\<lambda>(ch, rt, st, deadline, game, orderedMoves, dep, s).
        nat (depth st + 1 - dep))") auto

declare depthsRun.simps [simp del]

definition bestOfDepth :: "bool \<Rightarrow> (number \<times> move) list \<Rightarrow> move option" where
  "bestOfDepth isRootWhite scored =
     snd (firstBest isRootWhite scored ((if isRootWhite then NegInfinity else Infinity), None))"

definition lastFound :: "move option list \<Rightarrow> move option" where
  "lastFound bests = (case filter (\<lambda>b. b \<noteq> None) bests of [] \<Rightarrow> None | found \<Rightarrow> last found)"

text \<open>A clock that passes the deadline between its ninth and tenth reading.\<close>

definition lateClock :: runtime where
  "lateClock = \<lparr>now = (\<lambda>k. if k < 9 then 0 else 2000), random = (\<lambda>k. 1 / 2)\<rparr>"

section \<open>Mate in one\<close>

text \<open>
  The score of a checkmate delivered by the side \<open>isWhite\<close>, and the moves of
  a position that deliver mate.
\<close>

definition mateScore :: "bool \<Rightarrow> real" where
  "mateScore isWhite = (if isWhite then 1000 else -1000)"

definition isMate :: "'g chess \<Rightarrow> 'g \<Rightarrow> move \<Rightarrow> bool" where
  "isMate ch game move = isCheckmate ch (make_move ch game move)"

text \<open>
  What the search relies on from the rules engine, all of it true of chess.js
  on legal positions: a legal move passes the turn, a position without legal
  moves is over, a checkmate is over, and the board shows at most one king of
  each colour.
\<close>

definition kingAt :: "'g chess \<Rightarrow> 'g \<Rightarrow> color \<Rightarrow> nat \<Rightarrow> nat \<Rightarrow> nat" where
  "kingAt ch game c rank file =
     (if board ch game rank file = Some \<lparr>ptype = King, pcolor = c\<rparr> then 1 else 0)"

definition kingCount :: "'g chess \<Rightarrow> 'g \<Rightarrow> color \<Rightarrow> nat" where
  "kingCount ch game c = (\<Sum>rank\<leftarrow>[0..<8]. \<Sum>file\<leftarrow>[0..<8]. kingAt ch game c rank file)"

definition chessRules :: "'g chess \<Rightarrow> bool" where
  "chessRules ch =
     ((\<forall>g. \<forall>m \<in> set (moves ch g). turn ch (make_move ch g m) \<noteq> turn ch g) \<and>
      (\<forall>g. moves ch g = [] \<longrightarrow> isGameOver ch g) \<and>
      (\<forall>g. isCheckmate ch g \<longrightarrow> isGameOver ch g) \<and>
      (\<forall>g. kingCount ch g White \<le> 1 \<and> kingCount ch g Black \<le> 1))"

section \<open>Auxiliary facts\<close>

lemma upt8: "[0..<8] = [0, 1, 2, 3, 4, 5, 6, 7::nat]"
  by code_simp

lemma boardScore_demo: "boardScore demo g = 0"
  by (simp add: boardScore_def upt8 addSquare_def demo_def demoBoard_def
      getPositionValue_def KING_POSITION_VALUES_def)

subsection \<open>The ordering puts the captures first\<close>

lemma insort_noncapture:
  "\<not> isCapture x \<Longrightarrow> \<forall>c \<in> set cs. isCapture c \<Longrightarrow> \<forall>n \<in> set ns. \<not> isCapture n \<Longrightarrow>
     insort_key captureKey x (cs @ ns) = cs @ x # ns"
  by (induction cs) (auto simp: captureKey_def insort_is_Cons)

lemma insort_capture:
  "isCapture x \<Longrightarrow> insort_key captureKey x ys = x # ys"
  by (cases ys) (auto simp: captureKey_def)

lemma orderMoves_eq:
  "orderMoves ms = filter isCapture ms @ filter (\<lambda>m. \<not> isCapture m) ms"
  unfolding orderMoves_def
proof (induction ms)
  case Nil
  show ?case by simp
next
  case (Cons x xs)
  show ?case
  proof (cases "isCapture x")
    case True
    then show ?thesis using Cons by (simp add: insort_capture)
  next
    case False
    then show ?thesis using Cons by (simp add: insort_noncapture)
  qed
qed

lemma set_orderMoves: "set (orderMoves ms) = set ms"
  by (simp add: orderMoves_def)

subsection \<open>The hard search does not use the random source\<close>

lemma clockOnlyI:
  "(\<And>s s'. clock_reads s' = clock_reads s \<Longrightarrow>
      fst (f' s') = fst (f s) \<and> clock_reads (snd (f' s')) = clock_reads (snd (f s)) \<and>
      random_draws (snd (f s)) = random_draws s) \<Longrightarrow> clockOnly f f'"
  by (simp add: clockOnly_def)

lemma clockOnlyD:
  "clockOnly f f' \<Longrightarrow> clock_reads s' = clock_reads s \<Longrightarrow>
     fst (f' s') = fst (f s) \<and> clock_reads (snd (f' s')) = clock_reads (snd (f s)) \<and>
      random_draws (snd (f s)) = random_draws s"
  by (simp add: clockOnly_def)

lemma clockOnly_evaluateLeaf:
  "difficulty st = Hard \<Longrightarrow>
     clockOnly (\<lambda>s. evaluateLeaf ch rt st g (tick s)) (\<lambda>s. evaluateLeaf ch rt' st g (tick s))"
  by (simp add: clockOnly_def evaluateLeaf_def evaluatePosition_def tick_def)

lemma clockOnly_maxLoop:
  assumes "\<And>g a b. clockOnly (recurse g a b) (recurse' g a b)"
  shows "clockOnly (maxLoop ch recurse game ms m a b) (maxLoop ch recurse' game ms m a b)"
proof (induction ms arbitrary: m a)
  case Nil
  show ?case by (simp add: clockOnly_def)
next
  case (Cons x xs)
  show ?case
  proof (rule clockOnlyI)
    fix s s' :: io
    assume eq: "clock_reads s' = clock_reads s"
    let ?g = "make_move ch game x"
    note r = clockOnlyD [OF assms [of ?g a b] eq]
    obtain e t where f: "recurse ?g a b s = (e, t)" by (cases "recurse ?g a b s")
    obtain e' t' where f': "recurse' ?g a b s' = (e', t')" by (cases "recurse' ?g a b s'")
    from r f f' have e: "e' = e" and t: "clock_reads t' = clock_reads t"
      and d: "random_draws t = random_draws s" by simp_all
    note ih = clockOnlyD [OF Cons.IH [of "max m e" "max a e"] t]
    show "fst (maxLoop ch recurse' game (x # xs) m a b s') = fst (maxLoop ch recurse game (x # xs) m a b s) \<and>
          clock_reads (snd (maxLoop ch recurse' game (x # xs) m a b s')) =
          clock_reads (snd (maxLoop ch recurse game (x # xs) m a b s)) \<and>
          random_draws (snd (maxLoop ch recurse game (x # xs) m a b s)) = random_draws s"
      using ih f f' e t d by (simp add: Let_def)
  qed
qed

lemma clockOnly_minLoop:
  assumes "\<And>g a b. clockOnly (recurse g a b) (recurse' g a b)"
  shows "clockOnly (minLoop ch recurse game ms m a b) (minLoop ch recurse' game ms m a b)"
proof (induction ms arbitrary: m b)
  case Nil
  show ?case by (simp add: clockOnly_def)
next
  case (Cons x xs)
  show ?case
  proof (rule clockOnlyI)
    fix s s' :: io
    assume eq: "clock_reads s' = clock_reads s"
    let ?g = "make_move ch game x"
    note r = clockOnlyD [OF assms [of ?g a b] eq]
    obtain e t where f: "recurse ?g a b s = (e, t)" by (cases "recurse ?g a b s")
    obtain e' t' where f': "recurse' ?g a b s' = (e', t')" by (cases "recurse' ?g a b s'")
    from r f f' have e: "e' = e" and t: "clock_reads t' = clock_reads t"
      and d: "random_draws t = random_draws s" by simp_all
    note ih = clockOnlyD [OF Cons.IH [of "min m e" "min b e"] t]
    show "fst (minLoop ch recurse' game (x # xs) m a b s') = fst (minLoop ch recurse game (x # xs) m a b s) \<and>
          clock_reads (snd (minLoop ch recurse' game (x # xs) m a b s')) =
          clock_reads (snd (minLoop ch recurse game (x # xs) m a b s)) \<and>
          random_draws (snd (minLoop ch recurse game (x # xs) m a b s)) = random_draws s"
      using ih f f' e t d by (simp add: Let_def)
  qed
qed

lemma clockOnly_minimax:
  assumes "difficulty st = Hard" and "now rt' = now rt"
  shows "clockOnly (minimax ch rt st deadline d g isMax a b) (minimax ch rt' st deadline d g isMax a b)"
proof (induction d arbitrary: g isMax a b)
  case 0
  show ?case using clockOnly_evaluateLeaf [OF assms(1), of ch rt g rt'] by simp
next
  case (Suc d)
  show ?case
  proof (rule clockOnlyI)
    fix s s' :: io
    assume eq: "clock_reads s' = clock_reads s"
    have eq': "clock_reads (tick s') = clock_reads (tick s)" using eq by (simp add: tick_def)
    have dr: "random_draws (tick s) = random_draws s" by (simp add: tick_def)
    note leaf = clockOnlyD [OF clockOnly_evaluateLeaf [OF assms(1), of ch rt g rt'] eq]
    note mx = clockOnlyD [OF clockOnly_maxLoop [of "\<lambda>g. minimax ch rt st deadline d g False"
          "\<lambda>g. minimax ch rt' st deadline d g False", OF Suc.IH] eq']
    note mn = clockOnlyD [OF clockOnly_minLoop [of "\<lambda>g. minimax ch rt st deadline d g True"
          "\<lambda>g. minimax ch rt' st deadline d g True", OF Suc.IH] eq']
    show "fst (minimax ch rt' st deadline (Suc d) g isMax a b s') =
          fst (minimax ch rt st deadline (Suc d) g isMax a b s) \<and>
          clock_reads (snd (minimax ch rt' st deadline (Suc d) g isMax a b s')) =
          clock_reads (snd (minimax ch rt st deadline (Suc d) g isMax a b s)) \<and>
          random_draws (snd (minimax ch rt st deadline (Suc d) g isMax a b s)) = random_draws s"
      using leaf mx mn eq dr assms(2) by (simp add: Let_def)
  qed
qed

lemma clockOnly_rootLoop:
  assumes "difficulty st = Hard" and "now rt' = now rt"
  shows "clockOnly (rootLoop ch rt st deadline dep w game ms best)
                   (rootLoop ch rt' st deadline dep w game ms best)"
proof (induction ms arbitrary: best)
  case Nil
  show ?case by (simp add: clockOnly_def)
next
  case (Cons x xs)
  obtain bs bm where best: "best = (bs, bm)" by (cases best)
  show ?case unfolding best
  proof (rule clockOnlyI)
    fix s s' :: io
    assume eq: "clock_reads s' = clock_reads s"
    have eq': "clock_reads (tick s') = clock_reads (tick s)" using eq by (simp add: tick_def)
    have dr: "random_draws (tick s) = random_draws s" by (simp add: tick_def)
    let ?g = "make_move ch game x"
    let ?m = "\<lambda>r. minimax ch r st deadline (nat (dep - 1)) ?g (turn ch ?g = White) NegInfinity Infinity"
    note r = clockOnlyD [OF clockOnly_minimax [OF assms, of ch deadline "nat (dep - 1)" ?g
          "turn ch ?g = White" NegInfinity Infinity] eq']
    obtain e t where f: "?m rt (tick s) = (e, t)" by (cases "?m rt (tick s)")
    obtain e' t' where f': "?m rt' (tick s') = (e', t')" by (cases "?m rt' (tick s')")
    from r f f' dr have e: "e' = e" and t: "clock_reads t' = clock_reads t"
      and d: "random_draws t = random_draws s" by simp_all
    note ih1 = clockOnlyD [OF Cons.IH [of "(e, Some x)"] t]
    note ih2 = clockOnlyD [OF Cons.IH [of "(bs, bm)"] t]
    show "fst (rootLoop ch rt' st deadline dep w game (x # xs) (bs, bm) s') =
          fst (rootLoop ch rt st deadline dep w game (x # xs) (bs, bm) s) \<and>
          clock_reads (snd (rootLoop ch rt' st deadline dep w game (x # xs) (bs, bm) s')) =
          clock_reads (snd (rootLoop ch rt st deadline dep w game (x # xs) (bs, bm) s)) \<and>
          random_draws (snd (rootLoop ch rt st deadline dep w game (x # xs) (bs, bm) s)) = random_draws s"
      using ih1 ih2 f f' e t d eq dr assms(2) by (simp add: Let_def tick_def)
  qed
qed

lemma deepen_done:
  "\<not> dep \<le> depth st \<Longrightarrow> deepen ch rt st deadline w game ms dep sel s = (sel, s)"
  by (subst deepen.simps) simp

lemma deepen_step:
  "dep \<le> depth st \<Longrightarrow>
   rootLoop ch rt st deadline dep w game ms ((if w then NegInfinity else Infinity), None) s
     = ((bs, bm), t) \<Longrightarrow>
   deepen ch rt st deadline w game ms dep sel s =
     (if now rt (clock_reads t) > deadline
      then ((case bm of Some m \<Rightarrow> Some m | None \<Rightarrow> sel), tick t)
      else deepen ch rt st deadline w game ms (dep + 1)
             (case bm of Some m \<Rightarrow> Some m | None \<Rightarrow> sel) (tick t))"
  by (subst deepen.simps) simp

lemma clockOnly_deepen:
  assumes "difficulty st = Hard" and "now rt' = now rt"
  shows "clock_reads s' = clock_reads s \<Longrightarrow>
     fst (deepen ch rt' st deadline w game ms dep sel s') =
     fst (deepen ch rt st deadline w game ms dep sel s) \<and>
     clock_reads (snd (deepen ch rt' st deadline w game ms dep sel s')) =
     clock_reads (snd (deepen ch rt st deadline w game ms dep sel s)) \<and>
     random_draws (snd (deepen ch rt st deadline w game ms dep sel s)) = random_draws s"
proof (induction "nat (depth st + 1 - dep)" arbitrary: dep sel s s')
  case 0
  then have "\<not> dep \<le> depth st" by simp
  then show ?case using "0.prems" by (simp add: deepen_done)
next
  case (Suc n)
  from Suc.hyps(2) have True: "dep \<le> depth st" by simp
  let ?init = "((if w then NegInfinity else Infinity), None :: move option)"
  let ?r = "\<lambda>r. rootLoop ch r st deadline dep w game ms ?init"
  note r = clockOnlyD [OF clockOnly_rootLoop [OF assms, of ch deadline dep w game ms ?init] Suc.prems]
  obtain bs bm t where f: "?r rt s = ((bs, bm), t)" by (cases "?r rt s") auto
  obtain bs' bm' t' where f': "?r rt' s' = ((bs', bm'), t')" by (cases "?r rt' s'") auto
  from r f f' have e: "bs' = bs" and e2: "bm' = bm" and t: "clock_reads t' = clock_reads t"
    and d: "random_draws t = random_draws s" by simp_all
  note st = deepen_step [OF True f, of sel]
  note st' = deepen_step [OF True f', of sel]
  show ?case
  proof (cases "now rt (clock_reads t) > deadline")
    case over: True
    show ?thesis
      using over e2 t d assms(2) by (simp add: st st' tick_def)
  next
    case under: False
    have tt: "clock_reads (tick t') = clock_reads (tick t)" using t by (simp add: tick_def)
    have dd: "random_draws (tick t) = random_draws s" using d by (simp add: tick_def)
    have n: "n = nat (depth st + 1 - (dep + 1))" using Suc.hyps(2) by simp
    note ih = Suc.hyps(1) [OF n tt, of "case bm of Some m \<Rightarrow> Some m | None \<Rightarrow> sel"]
    show ?thesis
      using under e2 t dd assms(2) ih by (simp add: st st')
  qed
qed

subsection \<open>The selected move is a legal move\<close>

lemma mediumLoop_move:
  "snd (fst (mediumLoop ch rt st w game ms best s)) = snd best \<or>
   (\<exists>m \<in> set ms. snd (fst (mediumLoop ch rt st w game ms best s)) = Some m)"
proof (induction ms arbitrary: best s)
  case Nil
  show ?case by simp
next
  case (Cons x xs)
  obtain bs bm where best: "best = (bs, bm)" by (cases best)
  obtain sc t where e: "evaluatePosition ch rt st (make_move ch game x) s = (sc, t)"
    by (cases "evaluatePosition ch rt st (make_move ch game x) s")
  show ?case
    using Cons.IH [of "(Num sc, Some x)" t] Cons.IH [of "(bs, bm)" t]
    by (auto simp add: best e)
qed

lemma rootLoop_move:
  "snd (fst (rootLoop ch rt st deadline dep w game ms best s)) = snd best \<or>
   (\<exists>m \<in> set ms. snd (fst (rootLoop ch rt st deadline dep w game ms best s)) = Some m)"
proof (induction ms arbitrary: best s)
  case Nil
  show ?case by simp
next
  case (Cons x xs)
  obtain bs bm where best: "best = (bs, bm)" by (cases best)
  let ?g = "make_move ch game x"
  obtain sc t where e: "minimax ch rt st deadline (nat (dep - 1)) ?g (turn ch ?g = White)
      NegInfinity Infinity (tick s) = (sc, t)"
    by (cases "minimax ch rt st deadline (nat (dep - 1)) ?g (turn ch ?g = White)
      NegInfinity Infinity (tick s)")
  show ?case
    using Cons.IH [of "(sc, Some x)" t] Cons.IH [of "(bs, bm)" t]
    by (auto simp add: best e)
qed

lemma rootLoop_keeps_Some:
  "snd best \<noteq> None \<Longrightarrow> snd (fst (rootLoop ch rt st deadline dep w game ms best s)) \<noteq> None"
proof (induction ms arbitrary: best s)
  case Nil
  then show ?case by simp
next
  case (Cons x xs)
  obtain bs bm where best: "best = (bs, bm)" by (cases best)
  let ?g = "make_move ch game x"
  obtain sc t where e: "minimax ch rt st deadline (nat (dep - 1)) ?g (turn ch ?g = White)
      NegInfinity Infinity (tick s) = (sc, t)"
    by (cases "minimax ch rt st deadline (nat (dep - 1)) ?g (turn ch ?g = White)
      NegInfinity Infinity (tick s)")
  show ?case
    using Cons.IH [of "(sc, Some x)" t] Cons.IH [of "(bs, bm)" t] Cons.prems
    by (auto simp add: best e)
qed

lemma deepen_move:
  "fst (deepen ch rt st deadline w game ms dep sel s) = sel \<or>
   (\<exists>m \<in> set ms. fst (deepen ch rt st deadline w game ms dep sel s) = Some m)"
proof (induction "nat (depth st + 1 - dep)" arbitrary: dep sel s)
  case 0
  then have "\<not> dep \<le> depth st" by simp
  then show ?case by (simp add: deepen_done)
next
  case (Suc n)
  from Suc.hyps(2) have le: "dep \<le> depth st" by simp
  let ?init = "((if w then NegInfinity else Infinity), None :: move option)"
  obtain bs bm t where f: "rootLoop ch rt st deadline dep w game ms ?init s = ((bs, bm), t)"
    by (cases "rootLoop ch rt st deadline dep w game ms ?init s") auto
  have bm: "bm = None \<or> (\<exists>m \<in> set ms. bm = Some m)"
    using rootLoop_move [of ch rt st deadline dep w game ms ?init s] f by simp
  let ?sel = "case bm of Some m \<Rightarrow> Some m | None \<Rightarrow> sel"
  have sel: "?sel = sel \<or> (\<exists>m \<in> set ms. ?sel = Some m)"
    using bm by auto
  have n: "n = nat (depth st + 1 - (dep + 1))" using Suc.hyps(2) by simp
  note ih = Suc.hyps(1) [OF n, of ?sel "tick t"]
  show ?case
  proof (cases "now rt (clock_reads t) > deadline")
    case True
    then show ?thesis using sel by (simp add: deepen_step [OF le f])
  next
    case False
    then show ?thesis using sel ih by (auto simp add: deepen_step [OF le f])
  qed
qed

lemma deepen_keeps_Some:
  "sel \<noteq> None \<Longrightarrow> fst (deepen ch rt st deadline w game ms dep sel s) \<noteq> None"
proof (induction "nat (depth st + 1 - dep)" arbitrary: dep sel s)
  case 0
  then have "\<not> dep \<le> depth st" by simp
  then show ?case using "0.prems" by (simp add: deepen_done)
next
  case (Suc n)
  from Suc.hyps(2) have le: "dep \<le> depth st" by simp
  let ?init = "((if w then NegInfinity else Infinity), None :: move option)"
  obtain bs bm t where f: "rootLoop ch rt st deadline dep w game ms ?init s = ((bs, bm), t)"
    by (cases "rootLoop ch rt st deadline dep w game ms ?init s") auto
  let ?sel = "case bm of Some m \<Rightarrow> Some m | None \<Rightarrow> sel"
  have sel: "?sel \<noteq> None" using Suc.prems by (cases bm) auto
  have n: "n = nat (depth st + 1 - (dep + 1))" using Suc.hyps(2) by simp
  note ih = Suc.hyps(1) [OF n sel, of "tick t"]
  show ?case
  proof (cases "now rt (clock_reads t) > deadline")
    case True
    then show ?thesis using sel by (simp add: deepen_step [OF le f])
  next
    case False
    then show ?thesis using ih by (simp add: deepen_step [OF le f])
  qed
qed

lemma better_initial: "better w (Num x) (if w then NegInfinity else Infinity)"
  by (simp add: better_def less_number_def)

lemma rootLoop_first_scored:
  assumes "\<not> now rt (clock_reads s) > deadline"
  shows "snd (fst (rootLoop ch rt st deadline 1 w game (x # xs)
            ((if w then NegInfinity else Infinity), None) s)) \<noteq> None"
proof -
  let ?g = "make_move ch game x"
  obtain sc t where e: "evaluatePosition ch rt st ?g (tick (tick s)) = (sc, t)"
    by (cases "evaluatePosition ch rt st ?g (tick (tick s))")
  show ?thesis
    using assms rootLoop_keeps_Some [of "(Num sc, Some x)" ch rt st deadline 1 w game xs t]
    by (simp add: evaluateLeaf_def e better_initial)
qed

lemma deepen_first_scored:
  assumes "1 \<le> depth st" and "ms \<noteq> []" and "\<not> now rt (clock_reads s) > deadline"
  shows "fst (deepen ch rt st deadline w game ms 1 None s) \<noteq> None"
proof -
  obtain x xs where ms: "ms = x # xs" using assms(2) by (cases ms) auto
  let ?init = "((if w then NegInfinity else Infinity), None :: move option)"
  obtain bs bm t where f: "rootLoop ch rt st deadline 1 w game ms ?init s = ((bs, bm), t)"
    by (cases "rootLoop ch rt st deadline 1 w game ms ?init s") auto
  have bm: "bm \<noteq> None"
    using rootLoop_first_scored [OF assms(3), of ch st w game x xs] f ms by simp
  then obtain m where m: "bm = Some m" by auto
  show ?thesis
    using deepen_keeps_Some [of "Some m" ch rt st deadline w game ms 2 "tick t"]
    by (simp add: deepen_step [OF assms(1) f] m)
qed

lemma floor_index:
  assumes "0 \<le> (r::real)" and "r < 1" and "0 < n"
  shows "0 \<le> \<lfloor>r * real n\<rfloor> \<and> \<lfloor>r * real n\<rfloor> < int n"
proof
  show "0 \<le> \<lfloor>r * real n\<rfloor>" using assms by simp
  have "r * real n < real n" using assms by simp
  then show "\<lfloor>r * real n\<rfloor> < int n" by (simp add: floor_less_iff)
qed

lemma getBestMove_none: "moves ch game = [] \<Longrightarrow> getBestMove ch rt st game s = (Inr None, s)"
  by (simp add: getBestMove_def)

lemma getBestMove_easy:
  assumes "moves ch game \<noteq> []" and "difficulty st = Easy"
    and "0 \<le> random rt (random_draws s)" and "random rt (random_draws s) < 1"
  shows "\<exists>m \<in> set (moves ch game). fst (getBestMove ch rt st game s) = Inr (Some (toAIMove m))"
proof -
  let ?ms = "moves ch game"
  let ?pool = "if length (filter isCapture ?ms) > 0 then filter isCapture ?ms else ?ms"
  let ?i = "\<lfloor>random rt (random_draws s) * real (length ?pool)\<rfloor>"
  have pos: "0 < length ?pool" using assms(1) by simp
  have sub: "set ?pool \<subseteq> set ?ms" by auto
  note idx = floor_index [OF assms(3) assms(4) pos]
  then have "nat ?i < length ?pool" by linarith
  then have "?pool ! nat ?i \<in> set ?pool" by (rule nth_mem)
  then have mem: "?pool ! nat ?i \<in> set ?ms" using sub by blast
  have "fst (getBestMove ch rt st game s) = Inr (Some (toAIMove (?pool ! nat ?i)))"
    using assms(1,2) idx by (simp add: getBestMove_def Let_def)
  then show ?thesis using mem by blast
qed

lemma getBestMove_medium:
  assumes "moves ch game \<noteq> []" and "difficulty st = Medium"
  shows "\<exists>m \<in> set (moves ch game). fst (getBestMove ch rt st game s) = Inr (Some (toAIMove m))"
proof -
  let ?ms = "moves ch game"
  let ?w = "turn ch game = White"
  let ?init = "((if ?w then NegInfinity else Infinity), None :: move option)"
  obtain bs bm t where f: "mediumLoop ch rt st ?w game (orderMoves ?ms) ?init s = ((bs, bm), t)"
    by (cases "mediumLoop ch rt st ?w game (orderMoves ?ms) ?init s") auto
  have bm: "bm = None \<or> (\<exists>m \<in> set ?ms. bm = Some m)"
    using mediumLoop_move [of ch rt st ?w game "orderMoves ?ms" ?init s] f
    by (simp add: set_orderMoves)
  have hd: "hd ?ms \<in> set ?ms" using assms(1) by simp
  show ?thesis
  proof (cases bm)
    case None
    then have "fst (getBestMove ch rt st game s) = Inr (Some (toAIMove (hd ?ms)))"
      using assms f by (simp add: getBestMove_def Let_def)
    then show ?thesis using hd by blast
  next
    case (Some m)
    then have "fst (getBestMove ch rt st game s) = Inr (Some (toAIMove m))"
      using assms f by (simp add: getBestMove_def Let_def)
    moreover have "m \<in> set ?ms" using bm Some by auto
    ultimately show ?thesis by blast
  qed
qed

lemma getBestMove_hard_eq:
  assumes "moves ch game \<noteq> []" and "difficulty st = Hard"
  shows "fst (getBestMove ch rt st game s) =
     Inr (map_option toAIMove (fst (deepen ch rt st
       (now rt (clock_reads s) + (if timeLimitMs st = 0 then 300 else timeLimitMs st))
       (turn ch game = White) game (orderMoves (moves ch game)) 1 None (tick s))))"
  using assms by (simp add: getBestMove_def Let_def split_beta)

lemma getBestMove_hard:
  assumes "moves ch game \<noteq> []" and "difficulty st = Hard"
  shows "fst (getBestMove ch rt st game s) = Inr None \<or>
     (\<exists>m \<in> set (moves ch game). fst (getBestMove ch rt st game s) = Inr (Some (toAIMove m)))"
  using deepen_move [of ch rt st
       "now rt (clock_reads s) + (if timeLimitMs st = 0 then 300 else timeLimitMs st)"
       "turn ch game = White" game "orderMoves (moves ch game)" 1 None "tick s"]
  by (auto simp add: getBestMove_hard_eq [OF assms] set_orderMoves)

lemma getBestMove_hard_some:
  assumes "moves ch game \<noteq> []" and "difficulty st = Hard" and "1 \<le> depth st"
    and "now rt (Suc (clock_reads s))
           \<le> now rt (clock_reads s) + (if timeLimitMs st = 0 then 300 else timeLimitMs st)"
  shows "\<exists>m \<in> set (moves ch game). fst (getBestMove ch rt st game s) = Inr (Some (toAIMove m))"
proof -
  let ?dl = "now rt (clock_reads s) + (if timeLimitMs st = 0 then 300 else timeLimitMs st)"
  have ne: "orderMoves (moves ch game) \<noteq> []"
    using assms(1) set_orderMoves [of "moves ch game"] by (metis set_empty)
  have t: "\<not> now rt (clock_reads (tick s)) > ?dl" using assms(4) by (simp add: tick_def)
  have "fst (deepen ch rt st ?dl (turn ch game = White) game (orderMoves (moves ch game)) 1 None
          (tick s)) \<noteq> None"
    by (rule deepen_first_scored [OF assms(3) ne t])
  then show ?thesis
    using getBestMove_hard [OF assms(1,2), of rt s] by (auto simp add: getBestMove_hard_eq [OF assms(1,2)])
qed

subsection \<open>The board score as a sum, and its colour mirror\<close>

lemma addSquare_squareValue:
  "addSquare ch game rank file score = score + squareValue ch game rank file"
  by (simp add: addSquare_def squareValue_def Let_def split: option.splits)

lemma fold_add_sum: "fold (\<lambda>x s. s + h x) xs (a::real) = a + sum_list (map h xs)"
  by (induction xs arbitrary: a) simp_all

lemma fold_addSquare:
  "fold (addSquare ch game rank) xs s = s + sum_list (map (squareValue ch game rank) xs)"
  by (induction xs arbitrary: s) (simp_all add: addSquare_squareValue)

lemma sum_list_neg: "sum_list (map (\<lambda>x. - h x) xs) = - sum_list (map h xs :: real list)"
  by (induction xs) simp_all

lemma boardScore_sum:
  "boardScore ch game =
     (\<Sum>rank\<leftarrow>[0..<8]. \<Sum>file\<leftarrow>[0..<8]. squareValue ch game rank file)"
proof -
  have inner: "(\<lambda>rank. fold (addSquare ch game rank) [0..<8])
      = (\<lambda>rank s. s + (\<Sum>file\<leftarrow>[0..<8]. squareValue ch game rank file))"
    by (intro ext) (rule fold_addSquare)
  show ?thesis
    unfolding boardScore_def inner by (simp only: fold_add_sum add_0)
qed

lemma getPositionValue_mirror:
  "rank < 8 \<Longrightarrow> getPositionValue (mirrorPiece p) rank file = getPositionValue p (7 - rank) file"
  by (simp add: getPositionValue_def mirrorPiece_def swapColor_def)

lemma squareValue_mirror:
  assumes "colorMirrored ch g g'" and "rank < 8" and "file < 8"
  shows "squareValue ch g' rank file = - squareValue ch g (7 - rank) file"
proof -
  have b: "board ch g' rank file = map_option mirrorPiece (board ch g (7 - rank) file)"
    using assms by (simp add: colorMirrored_def)
  show ?thesis
  proof (cases "board ch g (7 - rank) file")
    case None
    then show ?thesis using b by (simp add: squareValue_def addSquare_def)
  next
    case (Some p)
    then show ?thesis
      using b getPositionValue_mirror [OF assms(2)]
      by (simp add: squareValue_def addSquare_def Let_def mirrorPiece_def swapColor_def)
  qed
qed

lemma sum_list_mirror:
  "(\<Sum>rank\<leftarrow>[0..<8]. h (7 - rank)) = (\<Sum>rank\<leftarrow>[0..<8]. (h rank :: real))"
  by (simp add: upt8)

lemma boardScore_mirror:
  assumes "colorMirrored ch g g'"
  shows "boardScore ch g' = - boardScore ch g"
proof -
  have row: "\<And>rank. rank \<in> set [0..<8] \<Longrightarrow>
      (\<Sum>file\<leftarrow>[0..<8]. squareValue ch g' rank file)
        = - (\<Sum>file\<leftarrow>[0..<8]. squareValue ch g (7 - rank) file)"
  proof -
    fix rank :: nat assume r: "rank \<in> set [0..<8]"
    have "map (\<lambda>file. squareValue ch g' rank file) [0..<8]
        = map (\<lambda>file. - squareValue ch g (7 - rank) file) [0..<8]"
      using r by (intro map_cong refl squareValue_mirror [OF assms]) simp_all
    then show "(\<Sum>file\<leftarrow>[0..<8]. squareValue ch g' rank file)
        = - (\<Sum>file\<leftarrow>[0..<8]. squareValue ch g (7 - rank) file)"
      by (simp only: sum_list_neg)
  qed
  have "boardScore ch g' = (\<Sum>rank\<leftarrow>[0..<8]. - (\<Sum>file\<leftarrow>[0..<8]. squareValue ch g (7 - rank) file))"
    unfolding boardScore_sum using row by (intro arg_cong [where f = sum_list] map_cong refl) 
  also have "\<dots> = - (\<Sum>rank\<leftarrow>[0..<8]. \<Sum>file\<leftarrow>[0..<8]. squareValue ch g (7 - rank) file)"
    by (simp only: sum_list_neg)
  also have "\<dots> = - boardScore ch g"
    unfolding boardScore_sum
    using sum_list_mirror [of "\<lambda>rank. \<Sum>file\<leftarrow>[0..<8]. squareValue ch g rank file"] by simp
  finally show ?thesis .
qed

lemma colorMirrored_pawnDemo: "colorMirrored pawnDemo False True"
  unfolding colorMirrored_def upt8
  by (simp add: pawnDemo_def pawnBoard_def mirrorPiece_def swapColor_def)

subsection \<open>Alpha-beta against the full minimax\<close>

lemma NegInfinity_least [simp]: "NegInfinity \<le> (x::number)"
  by simp

lemma Infinity_greatest [simp]: "(x::number) \<le> Infinity"
  by (cases x) simp_all

lemma max_NegInfinity [simp]: "max (x::number) NegInfinity = x" "max NegInfinity x = x"
  by (simp_all add: max_def antisym)

lemma min_Infinity [simp]: "min (x::number) Infinity = x" "min Infinity x = x"
  by (simp_all add: min_def antisym)

lemma fold_max_init: "fold max xs (c::number) = max c (fold max xs NegInfinity)"
proof (induction xs arbitrary: c)
  case Nil
  show ?case by simp
next
  case (Cons x xs)
  show ?case using Cons.IH [of "max x c"] Cons.IH [of x] by (simp add: max.assoc max.commute)
qed

lemma fold_min_init: "fold min xs (c::number) = min c (fold min xs Infinity)"
proof (induction xs arbitrary: c)
  case Nil
  show ?case by simp
next
  case (Cons x xs)
  show ?case using Cons.IH [of "min x c"] Cons.IH [of x] by (simp add: min.assoc min.commute)
qed

lemma failSoft_refl: "failSoft a b v v"
  by (simp add: failSoft_def)

lemma failSoft_full: "failSoft NegInfinity Infinity v r \<Longrightarrow> r = v"
  unfolding failSoft_def
  by (metis Infinity_greatest NegInfinity_least antisym not_le_imp_less)

lemma step_max_cut:
  assumes "failSoft a b vx e" and "m \<le> a" and "a < b" and "b \<le> max a e"
  shows "failSoft a b (max (max vx m) F) (max m e)"
proof -
  have be: "b \<le> e"
  proof (rule ccontr)
    assume "\<not> b \<le> e"
    then have "max a e < b" using assms(3) by (simp add: max_def not_le)
    with assms(4) show False by order
  qed
  with assms(1) have ev: "e \<le> vx" by (simp add: failSoft_def)
  have "m \<le> e" using be assms(2,3) by order
  then have me: "max m e = e" by (rule max_absorb2)
  have "vx \<le> max (max vx m) F" by (simp add: le_max_iff_disj)
  with ev have 1: "e \<le> max (max vx m) F" by order
  have 2: "\<not> e \<le> a" "\<not> e < b" using be assms(3) by order+
  show ?thesis unfolding me using 1 2 by (simp add: failSoft_def)
qed

lemma step_max_go:
  assumes "failSoft a b vx e" and "m \<le> a" and "a < b" and "\<not> b \<le> max a e"
    and "failSoft (max a e) b (max (max e m) F) R" and "max m e \<le> R"
  shows "failSoft a b (max (max vx m) F) R"
proof (cases "e \<le> a")
  case True
  then have ae: "max a e = a" by (rule max_absorb1)
  from True assms(1) have vx: "vx \<le> e" by (simp add: failSoft_def)
  note ih = assms(5) [unfolded ae failSoft_def]
  have low: "max vx m \<le> a" using vx True assms(2) by (simp add: order_trans [OF vx True])
  have low': "max e m \<le> a" using True assms(2) by simp
  have le: "max (max vx m) F \<le> max (max e m) F"
    by (intro max.mono order_refl vx)
  show ?thesis
    unfolding failSoft_def
  proof (intro conjI impI)
    assume "R \<le> a"
    with ih have "max (max e m) F \<le> R" by blast
    with le show "max (max vx m) F \<le> R" by (rule order_trans)
  next
    assume bR: "b \<le> R"
    with ih have r: "R \<le> max (max e m) F" by blast
    have "\<not> R \<le> max e m" using low' bR assms(3) by order
    with r have "R \<le> F" by (simp add: le_max_iff_disj)
    then show "R \<le> max (max vx m) F" by (simp add: le_max_iff_disj)
  next
    assume r: "a < R \<and> R < b"
    with ih have eq: "max (max e m) F = R" by blast
    have 1: "max e m < R" using low' r [THEN conjunct1] by order
    have "F = R"
    proof (cases "max e m \<le> F")
      case True
      then show ?thesis using eq by (simp add: max_absorb2)
    next
      case False
      then have "F \<le> max e m" using linear by blast
      then have "max (max e m) F = max e m" by (rule max_absorb1)
      with eq 1 show ?thesis by simp
    qed
    moreover have "max vx m \<le> R" using low r [THEN conjunct1] by order
    ultimately show "max (max vx m) F = R" by (simp add: max_absorb2)
  qed
next
  case False
  then have ea: "a < e" by (simp add: not_le)
  then have ae: "max a e = e" by (simp add: max_absorb2)
  from assms(4) ae have eb: "e < b" by (simp add: not_le)
  from ea eb assms(1) have vx: "vx = e" by (simp add: failSoft_def)
  note ih = assms(5) [unfolded ae failSoft_def]
  have "e \<le> max m e" by simp
  with assms(6) have eR: "e \<le> R" by order
  have eV: "e \<le> max (max e m) F" by (simp add: le_max_iff_disj)
  show ?thesis
    unfolding failSoft_def vx
  proof (intro conjI impI)
    assume "R \<le> a"
    with eR ea have False by order
    then show "max (max e m) F \<le> R" ..
  next
    assume "b \<le> R"
    with ih show "R \<le> max (max e m) F" by blast
  next
    assume r: "a < R \<and> R < b"
    show "max (max e m) F = R"
    proof (cases "R \<le> e")
      case True
      with ih have "max (max e m) F \<le> R" by blast
      moreover from True eR have "R = e" by order
      ultimately show ?thesis using eV by order
    next
      case False
      then have "e < R" by (simp add: not_le)
      with r ih show ?thesis by blast
    qed
  qed
qed

lemma step_min_cut:
  assumes "failSoft a b vx e" and "b \<le> m" and "a < b" and "min b e \<le> a"
  shows "failSoft a b (min (min vx m) F) (min m e)"
proof -
  have ea: "e \<le> a"
  proof (rule ccontr)
    assume "\<not> e \<le> a"
    then have "a < min b e" using assms(3) by (simp add: min_def not_le)
    with assms(4) show False by order
  qed
  with assms(1) have ve: "vx \<le> e" by (simp add: failSoft_def)
  have "e \<le> m" using ea assms(2,3) by order
  then have me: "min m e = e" by (rule min_absorb2)
  have "min (min vx m) F \<le> vx" by (simp add: min_le_iff_disj)
  with ve have 1: "min (min vx m) F \<le> e" by order
  have 2: "\<not> b \<le> e" "\<not> a < e" using ea assms(3) by order+
  show ?thesis unfolding me using 1 2 by (simp add: failSoft_def)
qed

lemma step_min_go:
  assumes "failSoft a b vx e" and "b \<le> m" and "a < b" and "\<not> min b e \<le> a"
    and "failSoft a (min b e) (min (min e m) F) R" and "R \<le> min m e"
  shows "failSoft a b (min (min vx m) F) R"
proof (cases "b \<le> e")
  case True
  then have be: "min b e = b" by (rule min_absorb1)
  from True assms(1) have vx: "e \<le> vx" by (simp add: failSoft_def)
  note ih = assms(5) [unfolded be failSoft_def]
  have high: "b \<le> min vx m" using True assms(2) by (simp add: order_trans [OF True vx])
  have high': "b \<le> min e m" using True assms(2) by simp
  have le: "min (min e m) F \<le> min (min vx m) F"
    by (intro min.mono order_refl vx)
  show ?thesis
    unfolding failSoft_def
  proof (intro conjI impI)
    assume "b \<le> R"
    with ih have "R \<le> min (min e m) F" by blast
    then show "R \<le> min (min vx m) F" using le by (rule order_trans)
  next
    assume Ra: "R \<le> a"
    with ih have r: "min (min e m) F \<le> R" by blast
    have "\<not> min e m \<le> R" using high' Ra assms(3) by order
    with r have "F \<le> R" by (simp add: min_le_iff_disj)
    then show "min (min vx m) F \<le> R" by (simp add: min_le_iff_disj)
  next
    assume r: "a < R \<and> R < b"
    with ih have eq: "min (min e m) F = R" by blast
    have 1: "R < min e m" using high' r [THEN conjunct2] by order
    have "F = R"
    proof (cases "F \<le> min e m")
      case True
      then show ?thesis using eq by (simp add: min_absorb2)
    next
      case False
      then have "min e m \<le> F" using linear by blast
      then have "min (min e m) F = min e m" by (rule min_absorb1)
      with eq 1 show ?thesis by simp
    qed
    moreover have "R \<le> min vx m" using high r [THEN conjunct2] by order
    ultimately show "min (min vx m) F = R" by (simp add: min_absorb2)
  qed
next
  case False
  then have eb: "e < b" by (simp add: not_le)
  then have be: "min b e = e" by (simp add: min_absorb2)
  from assms(4) be have ae: "a < e" by (simp add: not_le)
  from ae eb assms(1) have vx: "vx = e" by (simp add: failSoft_def)
  note ih = assms(5) [unfolded be failSoft_def]
  have "min m e \<le> e" by simp
  with assms(6) have Re: "R \<le> e" by order
  have Ve: "min (min e m) F \<le> e" by (simp add: min_le_iff_disj)
  show ?thesis
    unfolding failSoft_def vx
  proof (intro conjI impI)
    assume "b \<le> R"
    with Re eb have False by order
    then show "R \<le> min (min e m) F" ..
  next
    assume "R \<le> a"
    with ih show "min (min e m) F \<le> R" by blast
  next
    assume r: "a < R \<and> R < b"
    show "min (min e m) F = R"
    proof (cases "e \<le> R")
      case True
      with ih have "R \<le> min (min e m) F" by blast
      moreover from True Re have "R = e" by order
      ultimately show ?thesis using Ve by order
    next
      case False
      then have "R < e" by (simp add: not_le)
      with r ih show ?thesis by blast
    qed
  qed
qed


lemma maxLoop_ge: "m \<le> fst (maxLoop ch recurse game ms m a b s)"
proof (induction ms arbitrary: m a s)
  case Nil
  show ?case by simp
next
  case (Cons x xs)
  obtain e t where r: "recurse (make_move ch game x) a b s = (e, t)"
    by (cases "recurse (make_move ch game x) a b s")
  have 1: "m \<le> max m e" by simp
  show ?case
  proof (cases "b \<le> max a e")
    case True
    then show ?thesis using 1 by (simp add: r)
  next
    case False
    have "max m e \<le> fst (maxLoop ch recurse game xs (max m e) (max a e) b t)" by (rule Cons.IH)
    with 1 have "m \<le> fst (maxLoop ch recurse game xs (max m e) (max a e) b t)" by (rule order_trans)
    then show ?thesis using False by (simp add: r)
  qed
qed

lemma minLoop_le: "fst (minLoop ch recurse game ms m a b s) \<le> m"
proof (induction ms arbitrary: m b s)
  case Nil
  show ?case by simp
next
  case (Cons x xs)
  obtain e t where r: "recurse (make_move ch game x) a b s = (e, t)"
    by (cases "recurse (make_move ch game x) a b s")
  have 1: "min m e \<le> m" by simp
  show ?case
  proof (cases "min b e \<le> a")
    case True
    then show ?thesis using 1 by (simp add: r)
  next
    case False
    have "fst (minLoop ch recurse game xs (min m e) a (min b e) t) \<le> min m e" by (rule Cons.IH)
    then have "fst (minLoop ch recurse game xs (min m e) a (min b e) t) \<le> m" using 1 by (rule order_trans)
    then show ?thesis using False by (simp add: r)
  qed
qed

lemma maxLoop_failSoft:
  assumes rec: "\<And>g a b s. a < b \<Longrightarrow> failSoft a b (V g) (fst (recurse g a b s))"
  shows "m \<le> a \<Longrightarrow> a < b \<Longrightarrow>
     failSoft a b (fold max (map (\<lambda>mv. V (make_move ch game mv)) ms) m)
       (fst (maxLoop ch recurse game ms m a b s))"
proof (induction ms arbitrary: m a s)
  case Nil
  show ?case by (simp add: failSoft_refl)
next
  case (Cons x xs)
  let ?g = "make_move ch game x"
  let ?F = "fold max (map (\<lambda>mv. V (make_move ch game mv)) xs) NegInfinity"
  obtain e t where r: "recurse ?g a b s = (e, t)" by (cases "recurse ?g a b s")
  have fe: "failSoft a b (V ?g) e" using rec [OF Cons.prems(2), of ?g s] by (simp add: r)
  have v: "fold max (map (\<lambda>mv. V (make_move ch game mv)) (x # xs)) m = max (max (V ?g) m) ?F"
    using fold_max_init [of "map (\<lambda>mv. V (make_move ch game mv)) xs" "max (V ?g) m"] by simp
  show ?case
  proof (cases "b \<le> max a e")
    case True
    have "failSoft a b (max (max (V ?g) m) ?F) (max m e)"
      by (rule step_max_cut [OF fe Cons.prems(1) Cons.prems(2) True])
    then show ?thesis using True by (simp only: v maxLoop.simps r Let_def split_conv if_True fst_conv)
  next
    case False
    then have lt: "max a e < b" by (simp add: not_le)
    have le: "max m e \<le> max a e" by (intro max.mono Cons.prems(1) order_refl)
    have ih: "failSoft (max a e) b (max (max e m) ?F)
        (fst (maxLoop ch recurse game xs (max m e) (max a e) b t))"
      using Cons.IH [OF le lt, of t]
        fold_max_init [of "map (\<lambda>mv. V (make_move ch game mv)) xs" "max m e"]
      by (simp add: max.commute)
    have ge: "max m e \<le> fst (maxLoop ch recurse game xs (max m e) (max a e) b t)"
      by (rule maxLoop_ge)
    have "failSoft a b (max (max (V ?g) m) ?F)
        (fst (maxLoop ch recurse game xs (max m e) (max a e) b t))"
      by (rule step_max_go [OF fe Cons.prems(1) Cons.prems(2) False ih ge])
    then show ?thesis using False by (simp only: v maxLoop.simps r Let_def split_conv if_False)
  qed
qed

lemma minLoop_failSoft:
  assumes rec: "\<And>g a b s. a < b \<Longrightarrow> failSoft a b (V g) (fst (recurse g a b s))"
  shows "b \<le> m \<Longrightarrow> a < b \<Longrightarrow>
     failSoft a b (fold min (map (\<lambda>mv. V (make_move ch game mv)) ms) m)
       (fst (minLoop ch recurse game ms m a b s))"
proof (induction ms arbitrary: m b s)
  case Nil
  show ?case by (simp add: failSoft_refl)
next
  case (Cons x xs)
  let ?g = "make_move ch game x"
  let ?F = "fold min (map (\<lambda>mv. V (make_move ch game mv)) xs) Infinity"
  obtain e t where r: "recurse ?g a b s = (e, t)" by (cases "recurse ?g a b s")
  have fe: "failSoft a b (V ?g) e" using rec [OF Cons.prems(2), of ?g s] by (simp add: r)
  have v: "fold min (map (\<lambda>mv. V (make_move ch game mv)) (x # xs)) m = min (min (V ?g) m) ?F"
    using fold_min_init [of "map (\<lambda>mv. V (make_move ch game mv)) xs" "min (V ?g) m"] by simp
  show ?case
  proof (cases "min b e \<le> a")
    case True
    have "failSoft a b (min (min (V ?g) m) ?F) (min m e)"
      by (rule step_min_cut [OF fe Cons.prems(1) Cons.prems(2) True])
    then show ?thesis using True by (simp only: v minLoop.simps r Let_def split_conv if_True fst_conv)
  next
    case False
    then have lt: "a < min b e" by (simp add: not_le)
    have le: "min b e \<le> min m e" by (intro min.mono Cons.prems(1) order_refl)
    have ih: "failSoft a (min b e) (min (min e m) ?F)
        (fst (minLoop ch recurse game xs (min m e) a (min b e) t))"
      using Cons.IH [OF le lt, of t]
        fold_min_init [of "map (\<lambda>mv. V (make_move ch game mv)) xs" "min m e"]
      by (simp add: min.commute)
    have ge: "fst (minLoop ch recurse game xs (min m e) a (min b e) t) \<le> min m e"
      by (rule minLoop_le)
    have "failSoft a b (min (min (V ?g) m) ?F)
        (fst (minLoop ch recurse game xs (min m e) a (min b e) t))"
      by (rule step_min_go [OF fe Cons.prems(1) Cons.prems(2) False ih ge])
    then show ?thesis using False by (simp only: v minLoop.simps r Let_def split_conv if_False)
  qed
qed

lemma evaluateLeaf_hard:
  "difficulty st = Hard \<Longrightarrow> evaluateLeaf ch rt st g s = (Num (staticScore ch g), s)"
  by (simp add: evaluateLeaf_def evaluatePosition_def staticScore_def)

lemma minimax_failSoft:
  assumes hard: "difficulty st = Hard" and nt: "\<And>k. now rt k \<le> deadline"
  shows "a < b \<Longrightarrow>
     failSoft a b (fullMinimax ch d g isMax) (fst (minimax ch rt st deadline d g isMax a b s))"
proof (induction d arbitrary: g isMax a b s)
  case 0
  show ?case by (simp add: evaluateLeaf_hard [OF hard] failSoft_refl)
next
  case (Suc d)
  have nd: "\<not> now rt (clock_reads s) > deadline" using nt [of "clock_reads s"] by simp
  show ?case
  proof (cases "isGameOver ch g")
    case True
    then show ?thesis by (simp add: evaluateLeaf_hard [OF hard] failSoft_refl)
  next
    case False
    show ?thesis
    proof (cases isMax)
      case True
      have "failSoft a b
          (fold max (map (\<lambda>mv. fullMinimax ch d (make_move ch g mv) False) (orderMoves (moves ch g)))
             NegInfinity)
          (fst (maxLoop ch (\<lambda>g. minimax ch rt st deadline d g False) g (orderMoves (moves ch g))
             NegInfinity a b (tick s)))"
        by (rule maxLoop_failSoft [where V = "\<lambda>g. fullMinimax ch d g False", OF Suc.IH _ Suc.prems])
          simp_all
      then show ?thesis using True False nd by (simp add: Let_def o_def)
    next
      case min: False
      have "failSoft a b
          (fold min (map (\<lambda>mv. fullMinimax ch d (make_move ch g mv) True) (orderMoves (moves ch g)))
             Infinity)
          (fst (minLoop ch (\<lambda>g. minimax ch rt st deadline d g True) g (orderMoves (moves ch g))
             Infinity a b (tick s)))"
        by (rule minLoop_failSoft [where V = "\<lambda>g. fullMinimax ch d g True", OF Suc.IH _ Suc.prems])
          simp_all
      then show ?thesis using min False nd by (simp add: Let_def o_def)
    qed
  qed
qed

lemma NegInfinity_less_Infinity: "NegInfinity < Infinity"
  by (simp add: less_number_def)

lemma minimax_root_exact:
  assumes "difficulty st = Hard" and "\<And>k. now rt k \<le> deadline"
  shows "fst (minimax ch rt st deadline d g isMax NegInfinity Infinity s) = fullMinimax ch d g isMax"
  by (rule failSoft_full [OF minimax_failSoft [OF assms NegInfinity_less_Infinity]])

lemma rootLoop_firstBest:
  assumes hard: "difficulty st = Hard" and nt: "\<And>k. now rt k \<le> deadline"
  shows "fst (rootLoop ch rt st deadline dep w game ms best s)
     = firstBest w (fullRootScores ch game ms dep) best"
proof (induction ms arbitrary: best s)
  case Nil
  show ?case by (simp add: fullRootScores_def)
next
  case (Cons x xs)
  obtain bs bm where best: "best = (bs, bm)" by (cases best)
  let ?g = "make_move ch game x"
  have nd: "\<not> now rt (clock_reads s) > deadline" using nt [of "clock_reads s"] by simp
  obtain sc t where e: "minimax ch rt st deadline (nat (dep - 1)) ?g (turn ch ?g = White)
      NegInfinity Infinity (tick s) = (sc, t)"
    by (cases "minimax ch rt st deadline (nat (dep - 1)) ?g (turn ch ?g = White)
      NegInfinity Infinity (tick s)")
  have sc: "sc = fullMinimax ch (nat (dep - 1)) ?g (turn ch ?g = White)"
    using minimax_root_exact [OF hard nt, of ch "nat (dep - 1)" ?g "turn ch ?g = White" "tick s"] e
    by simp
  have f: "fullRootScores ch game (x # xs) dep = (sc, x) # fullRootScores ch game xs dep"
    by (simp add: fullRootScores_def sc Let_def)
  show ?case
    using Cons.IH [of "(sc, Some x)" t] Cons.IH [of "(bs, bm)" t] nd
    by (simp add: best e f)
qed

lemma deepen_fold:
  assumes hard: "difficulty st = Hard" and nt: "\<And>k. now rt k \<le> deadline"
  shows "fst (deepen ch rt st deadline w game ms dep sel s)
     = fold (\<lambda>dep selectedMove.
               case snd (firstBest w (fullRootScores ch game ms dep)
                           ((if w then NegInfinity else Infinity), None)) of
                 Some m \<Rightarrow> Some m
               | None \<Rightarrow> selectedMove)
         [dep..depth st] sel"
proof (induction "nat (depth st + 1 - dep)" arbitrary: dep sel s)
  case 0
  then have "\<not> dep \<le> depth st" by simp
  then show ?case by (simp add: deepen_done)
next
  case (Suc n)
  from Suc.hyps(2) have le: "dep \<le> depth st" by simp
  let ?init = "((if w then NegInfinity else Infinity), None :: move option)"
  obtain bs bm t where f: "rootLoop ch rt st deadline dep w game ms ?init s = ((bs, bm), t)"
    by (cases "rootLoop ch rt st deadline dep w game ms ?init s") auto
  have "firstBest w (fullRootScores ch game ms dep) ?init = (bs, bm)"
    using rootLoop_firstBest [OF hard nt, of ch dep w game ms ?init s] f by (metis fst_conv)
  then have bm: "snd (firstBest w (fullRootScores ch game ms dep) ?init) = bm"
    by (metis snd_conv)
  have nd: "\<not> now rt (clock_reads t) > deadline" using nt [of "clock_reads t"] by simp
  have n: "n = nat (depth st + 1 - (dep + 1))" using Suc.hyps(2) by simp
  note ih = Suc.hyps(1) [OF n, of "case bm of Some m \<Rightarrow> Some m | None \<Rightarrow> sel" "tick t"]
  show ?case
    using ih nd bm by (simp add: deepen_step [OF le f] upto_rec1 [OF le])
qed

lemma fold_keep: "fold (\<lambda>x s. s) xs a = a"
  by (induction xs) simp_all

lemma hard_search_is_fullSearch:
  "difficulty st = Hard \<Longrightarrow>
   (\<forall>k. now rt k \<le> now rt (clock_reads s) + (if timeLimitMs st = 0 then 300 else timeLimitMs st)) \<Longrightarrow>
     fst (getBestMove ch rt st game s) = Inr (map_option toAIMove (fullSearch ch (depth st) game))"
proof -
  assume hard: "difficulty st = Hard"
    and nt: "\<forall>k. now rt k \<le> now rt (clock_reads s) + (if timeLimitMs st = 0 then 300 else timeLimitMs st)"
  show ?thesis
  proof (cases "moves ch game = []")
    case True
    then show ?thesis
      by (simp add: getBestMove_none fullSearch_def orderMoves_def fullRootScores_def fold_keep)
  next
    case False
    show ?thesis
      using deepen_fold [OF hard, of rt
          "now rt (clock_reads s) + (if timeLimitMs st = 0 then 300 else timeLimitMs st)"
          ch "turn ch game = White" game "orderMoves (moves ch game)" 1 None "tick s"] nt
      by (simp add: getBestMove_hard_eq [OF False hard] fullSearch_def Let_def)
  qed
qed

lemma fullSearch_demo: "fullSearch demo 3 0 = Some grab"
  by code_simp

subsection \<open>A bound on the board score\<close>

lemma table_rows:
  "list_all (\<lambda>row. length row = 8 \<and> list_all (\<lambda>v. \<bar>v\<bar> \<le> 5) row) (getPositionTable t)"
  by (cases t)
    (simp_all add: PAWN_POSITION_VALUES_def KNIGHT_POSITION_VALUES_def BISHOP_POSITION_VALUES_def
      ROOK_POSITION_VALUES_def QUEEN_POSITION_VALUES_def KING_POSITION_VALUES_def)

lemma table_length: "length (getPositionTable t) = 8"
  by (cases t)
    (simp_all add: PAWN_POSITION_VALUES_def KNIGHT_POSITION_VALUES_def BISHOP_POSITION_VALUES_def
      ROOK_POSITION_VALUES_def QUEEN_POSITION_VALUES_def KING_POSITION_VALUES_def)

lemma table_entry:
  assumes "i < 8" and "j < 8"
  shows "\<bar>getPositionTable t ! i ! j\<bar> \<le> 5"
proof -
  have "i < length (getPositionTable t)" using assms(1) by (simp add: table_length)
  then have row: "length (getPositionTable t ! i) = 8 \<and>
      list_all (\<lambda>v. \<bar>v\<bar> \<le> 5) (getPositionTable t ! i)"
    using table_rows [of t] by (simp add: list_all_length)
  then have "j < length (getPositionTable t ! i)" using assms(2) by simp
  then show ?thesis using row by (simp add: list_all_length)
qed

lemma getPositionValue_bound:
  "rank < 8 \<Longrightarrow> file < 8 \<Longrightarrow> \<bar>getPositionValue p rank file\<bar> \<le> 5"
  by (simp add: getPositionValue_def Let_def table_entry)

lemma PIECE_VALUES_range: "1 \<le> PIECE_VALUES t \<and> (t \<noteq> King \<longrightarrow> PIECE_VALUES t \<le> 9) \<and> PIECE_VALUES King = 100"
  by (cases t) simp_all

lemma squareValue_upper:
  assumes "rank < 8" and "file < 8"
  shows "squareValue ch game rank file \<le> 14 + 91 * real (kingAt ch game White rank file)"
proof (cases "board ch game rank file")
  case None
  then show ?thesis by (simp add: squareValue_def addSquare_def)
next
  case (Some p)
  note pv = getPositionValue_bound [OF assms, of p]
  note v = PIECE_VALUES_range [of "ptype p"]
  show ?thesis
  proof (cases "ptype p = King \<and> pcolor p = White")
    case True
    then have "p = \<lparr>ptype = King, pcolor = White\<rparr>" by (cases p) simp
    then have "kingAt ch game White rank file = 1" using Some by (simp add: kingAt_def)
    then show ?thesis using Some True pv by (simp add: squareValue_def addSquare_def Let_def)
  next
    case False
    then show ?thesis
      using Some pv v by (auto simp add: squareValue_def addSquare_def Let_def)
  qed
qed

lemma squareValue_lower:
  assumes "rank < 8" and "file < 8"
  shows "- 14 - 91 * real (kingAt ch game Black rank file) \<le> squareValue ch game rank file"
proof (cases "board ch game rank file")
  case None
  then show ?thesis by (simp add: squareValue_def addSquare_def)
next
  case (Some p)
  note pv = getPositionValue_bound [OF assms, of p]
  note v = PIECE_VALUES_range [of "ptype p"]
  show ?thesis
  proof (cases "ptype p = King \<and> pcolor p = Black")
    case True
    then have "p = \<lparr>ptype = King, pcolor = Black\<rparr>" by (cases p) simp
    then have "kingAt ch game Black rank file = 1" using Some by (simp add: kingAt_def)
    then show ?thesis using Some True pv by (simp add: squareValue_def addSquare_def Let_def)
  next
    case False
    then show ?thesis
      using Some pv v by (cases "pcolor p") (auto simp add: squareValue_def addSquare_def Let_def)
  qed
qed

lemma sum_list_affine:
  "(\<Sum>x\<leftarrow>xs. a + b * real (k x)) = a * real (length xs) + b * real (\<Sum>x\<leftarrow>xs. k x)"
  by (induction xs) (simp_all add: algebra_simps)

lemma board_sum_mono:
  assumes "\<And>rank file. rank < 8 \<Longrightarrow> file < 8 \<Longrightarrow> F rank file \<le> (G rank file :: real)"
  shows "(\<Sum>rank\<leftarrow>[0..<8]. \<Sum>file\<leftarrow>[0..<8]. F rank file)
           \<le> (\<Sum>rank\<leftarrow>[0..<8]. \<Sum>file\<leftarrow>[0..<8]. G rank file)"
  by (intro sum_list_mono assms) simp_all

lemma board_sum_affine:
  "(\<Sum>rank\<leftarrow>[0..<8]. \<Sum>file\<leftarrow>[0..<8]. a + b * real (k rank file))
     = 64 * a + b * real (\<Sum>rank\<leftarrow>[0..<8]. \<Sum>file\<leftarrow>[0..<8]. k rank file)"
proof -
  have "(\<Sum>rank\<leftarrow>[0..<8]. \<Sum>file\<leftarrow>[0..<8]. a + b * real (k rank file))
      = (\<Sum>rank\<leftarrow>[0..<8]. 8 * a + b * real (\<Sum>file\<leftarrow>[0..<8]. k rank file))"
    by (simp add: sum_list_affine)
  also have "\<dots> = 64 * a + b * real (\<Sum>rank\<leftarrow>[0..<8]. \<Sum>file\<leftarrow>[0..<8]. k rank file)"
    using sum_list_affine [of "8 * a" b "\<lambda>rank. \<Sum>file\<leftarrow>[0..<8]. k rank file" "[0..<8]"] by simp
  finally show ?thesis .
qed

lemma boardScore_bound:
  assumes "kingCount ch game White \<le> 1" and "kingCount ch game Black \<le> 1"
  shows "\<bar>boardScore ch game\<bar> < 999"
proof -
  have "boardScore ch game
      \<le> (\<Sum>rank\<leftarrow>[0..<8]. \<Sum>file\<leftarrow>[0..<8]. 14 + 91 * real (kingAt ch game White rank file))"
    unfolding boardScore_sum by (rule board_sum_mono) (rule squareValue_upper)
  also have "\<dots> = 64 * 14 + 91 * real (kingCount ch game White)"
    by (simp only: board_sum_affine kingCount_def)
  finally have up: "boardScore ch game \<le> 896 + 91 * real (kingCount ch game White)" by simp
  have "(\<Sum>rank\<leftarrow>[0..<8]. \<Sum>file\<leftarrow>[0..<8]. - 14 + (- 91) * real (kingAt ch game Black rank file))
      \<le> boardScore ch game"
    unfolding boardScore_sum
    using squareValue_lower [of _ _ ch game] by (intro board_sum_mono) simp
  moreover have "(\<Sum>rank\<leftarrow>[0..<8]. \<Sum>file\<leftarrow>[0..<8]. - 14 + (- 91) * real (kingAt ch game Black rank file))
      = 64 * (- 14) + (- 91) * real (kingCount ch game Black)"
    by (simp only: board_sum_affine kingCount_def)
  ultimately have low: "- 896 - 91 * real (kingCount ch game Black) \<le> boardScore ch game" by simp
  have "real (kingCount ch game White) \<le> 1" "real (kingCount ch game Black) \<le> 1"
    using assms by simp_all
  with up low show ?thesis by simp
qed

lemma chessRules_bound: "chessRules ch \<Longrightarrow> \<bar>boardScore ch g\<bar> < 999"
  by (simp add: chessRules_def boardScore_bound)

subsection \<open>The mate score against every other score\<close>

lemma Num_less [simp]: "(Num a < Num b) = (a < b)"
  by (auto simp add: less_number_def)

lemma Num_less_Infinity [simp]: "Num a < Infinity"
  by (simp add: less_number_def)

lemma NegInfinity_less_Num [simp]: "NegInfinity < Num a"
  by (simp add: less_number_def)

lemma better_mate_Num:
  "better w (Num (mateScore w)) (Num x) = (if w then x < 1000 else - 1000 < x)"
  by (simp add: better_def mateScore_def)

lemma better_mate_init: "better w (Num (mateScore w)) (if w then NegInfinity else Infinity)"
  by (simp add: better_def)

lemma better_irrefl: "\<not> better w x x"
  by (simp add: better_def)

lemma better_asym: "better w x y \<Longrightarrow> \<not> better w y x"
  by (auto simp add: better_def)

lemma other_color: "c \<noteq> c' \<Longrightarrow> (c = White) = (c' \<noteq> White)"
  by (cases c; cases c') simp_all

lemma staticScore_mate:
  assumes "chessRules ch" and "m \<in> set (moves ch game)" and "isMate ch game m"
  shows "staticScore ch (make_move ch game m) = mateScore (turn ch game = White)"
proof -
  have "turn ch (make_move ch game m) \<noteq> turn ch game"
    using assms(1,2) by (simp add: chessRules_def)
  then have "(turn ch (make_move ch game m) = White) = (turn ch game \<noteq> White)"
    by (rule other_color)
  then show ?thesis using assms(3) by (simp add: staticScore_def mateScore_def isMate_def)
qed

lemma staticScore_quiet:
  assumes "chessRules ch" and "\<not> isCheckmate ch g"
  shows "\<bar>staticScore ch g\<bar> < 999"
  using assms chessRules_bound [of ch g] by (simp add: staticScore_def)

lemma staticScore_range:
  assumes "chessRules ch"
  shows "\<bar>staticScore ch g\<bar> \<le> 1000"
proof (cases "isCheckmate ch g")
  case True
  then show ?thesis by (simp add: staticScore_def)
next
  case False
  then show ?thesis using staticScore_quiet [OF assms False] by simp
qed

lemma firstBest_mate:
  assumes sc: "\<forall>(sc, m) \<in> set xs. m \<in> L \<and> (M m \<longrightarrow> sc = Num (mateScore w)) \<and>
                 (\<not> M m \<longrightarrow> better w (Num (mateScore w)) sc)"
    and st: "(better w (Num (mateScore w)) bs \<and> (\<exists>(sc, m) \<in> set xs. M m)) \<or>
             (bs = Num (mateScore w) \<and> (\<exists>m0 \<in> L. bm = Some m0 \<and> M m0))"
  shows "\<exists>m \<in> L. snd (firstBest w xs (bs, bm)) = Some m \<and> M m"
  using sc st
proof (induction xs arbitrary: bs bm)
  case Nil
  then show ?case by simp
next
  case (Cons p xs)
  obtain s x where p: "p = (s, x)" by (cases p)
  from Cons.prems(1) p have x: "x \<in> L" and xm: "M x \<Longrightarrow> s = Num (mateScore w)"
    and xq: "\<not> M x \<Longrightarrow> better w (Num (mateScore w)) s"
    and rest: "\<forall>(sc, m) \<in> set xs. m \<in> L \<and> (M m \<longrightarrow> sc = Num (mateScore w)) \<and>
                 (\<not> M m \<longrightarrow> better w (Num (mateScore w)) sc)"
    by auto
  have nb: "\<not> better w s (Num (mateScore w))"
    using xm xq better_irrefl [of w "Num (mateScore w)"] better_asym [of w "Num (mateScore w)" s]
    by (cases "M x") auto
  from Cons.prems(2) show ?case
  proof
    assume held: "bs = Num (mateScore w) \<and> (\<exists>m0 \<in> L. bm = Some m0 \<and> M m0)"
    then have "firstBest w (p # xs) (bs, bm) = firstBest w xs (bs, bm)"
      using nb by (simp add: p)
    moreover have "\<exists>m \<in> L. snd (firstBest w xs (bs, bm)) = Some m \<and> M m"
      using held by (intro Cons.IH [OF rest]) simp
    ultimately show ?thesis by simp
  next
    assume unset: "better w (Num (mateScore w)) bs \<and> (\<exists>(sc, m) \<in> set (p # xs). M m)"
    show ?thesis
    proof (cases "M x")
      case True
      then have "firstBest w (p # xs) (bs, bm) = firstBest w xs (Num (mateScore w), Some x)"
        using unset xm by (simp add: p)
      moreover have "\<exists>m \<in> L. snd (firstBest w xs (Num (mateScore w), Some x)) = Some m \<and> M m"
        using True x by (intro Cons.IH [OF rest]) simp
      ultimately show ?thesis by simp
    next
      case False
      then have more: "\<exists>(sc, m) \<in> set xs. M m" using unset p by auto
      show ?thesis
      proof (cases "better w s bs")
        case True
        have "\<exists>m \<in> L. snd (firstBest w xs (s, Some x)) = Some m \<and> M m"
          using xq [OF False] more by (intro Cons.IH [OF rest]) simp
        then show ?thesis using True by (simp add: p)
      next
        case nbetter: False
        have "\<exists>m \<in> L. snd (firstBest w xs (bs, bm)) = Some m \<and> M m"
          using unset more by (intro Cons.IH [OF rest]) simp
        then show ?thesis using nbetter by (simp add: p)
      qed
    qed
  qed
qed


lemma fullMinimax_mate:
  assumes "chessRules ch" and "m \<in> set (moves ch game)" and "isMate ch game m"
  shows "fullMinimax ch d (make_move ch game m) b = Num (mateScore (turn ch game = White))"
proof -
  have "isGameOver ch (make_move ch game m)"
    using assms(1,3) by (simp add: chessRules_def isMate_def)
  then show ?thesis using staticScore_mate [OF assms] by (cases d) simp_all
qed

lemma quiet_worse:
  assumes "chessRules ch" and "\<not> isCheckmate ch g"
  shows "better w (Num (mateScore w)) (Num (staticScore ch g))"
  using staticScore_quiet [OF assms] by (auto simp add: better_mate_Num)

lemma fold_min_head: "fold min (x # xs) Infinity \<le> (x::number)"
  using fold_min_init [of xs x] by simp

lemma fold_max_head: "(x::number) \<le> fold max (x # xs) NegInfinity"
  using fold_max_init [of xs x] by simp

lemma reply_worse:
  assumes rules: "chessRules ch" and r: "r \<in> set (moves ch g)"
  shows "better (turn ch g \<noteq> White) (Num (mateScore (turn ch g \<noteq> White)))
           (Num (staticScore ch (make_move ch g r)))"
proof (cases "isCheckmate ch (make_move ch g r)")
  case False
  then show ?thesis by (rule quiet_worse [OF rules])
next
  case True
  have "turn ch (make_move ch g r) \<noteq> turn ch g"
    using rules r by (simp add: chessRules_def)
  then have "(turn ch (make_move ch g r) = White) = (turn ch g \<noteq> White)"
    by (rule other_color)
  then show ?thesis using True by (simp add: staticScore_def better_mate_Num)
qed

lemma fullMinimax_one_worse:
  assumes rules: "chessRules ch" and m: "m \<in> set (moves ch game)" and q: "\<not> isMate ch game m"
  shows "better (turn ch game = White) (Num (mateScore (turn ch game = White)))
           (fullMinimax ch (Suc 0) (make_move ch game m) (turn ch (make_move ch game m) = White))"
proof -
  let ?g = "make_move ch game m"
  let ?w = "turn ch game = White"
  have "turn ch ?g \<noteq> turn ch game" using rules m by (simp add: chessRules_def)
  then have tw: "(turn ch ?g = White) = (\<not> ?w)" by (rule other_color)
  have nc: "\<not> isCheckmate ch ?g" using q by (simp add: isMate_def)
  show ?thesis
  proof (cases "isGameOver ch ?g")
    case True
    then show ?thesis using quiet_worse [OF rules nc, of ?w] by simp
  next
    case False
    then have "moves ch ?g \<noteq> []" using rules by (auto simp add: chessRules_def)
    then have "orderMoves (moves ch ?g) \<noteq> []"
      using set_orderMoves [of "moves ch ?g"] by (metis set_empty)
    then obtain r rs where rs: "orderMoves (moves ch ?g) = r # rs"
      by (cases "orderMoves (moves ch ?g)") auto
    then have r: "r \<in> set (moves ch ?g)"
      using set_orderMoves [of "moves ch ?g"] by (metis list.set_intros(1))
    note rw = reply_worse [OF rules r, unfolded tw]
    show ?thesis
    proof (cases ?w)
      case True
      let ?vs = "map (\<lambda>g. fullMinimax ch 0 g True) (map (make_move ch ?g) rs)"
      have v: "fullMinimax ch (Suc 0) ?g (turn ch ?g = White)
          = fold min (Num (staticScore ch (make_move ch ?g r)) # ?vs) Infinity"
        using False True tw by (simp add: rs)
      have "fold min (Num (staticScore ch (make_move ch ?g r)) # ?vs) Infinity
          \<le> Num (staticScore ch (make_move ch ?g r))"
        by (rule fold_min_head)
      moreover have "Num (staticScore ch (make_move ch ?g r)) < Num (mateScore True)"
        using rw True by (simp add: better_def)
      ultimately have "fold min (Num (staticScore ch (make_move ch ?g r)) # ?vs) Infinity
          < Num (mateScore True)" by order
      then show ?thesis using True unfolding v by (simp add: better_def)
    next
      case black: False
      let ?vs = "map (\<lambda>g. fullMinimax ch 0 g False) (map (make_move ch ?g) rs)"
      have v: "fullMinimax ch (Suc 0) ?g (turn ch ?g = White)
          = fold max (Num (staticScore ch (make_move ch ?g r)) # ?vs) NegInfinity"
        using False black tw by (simp add: rs)
      have "Num (staticScore ch (make_move ch ?g r))
          \<le> fold max (Num (staticScore ch (make_move ch ?g r)) # ?vs) NegInfinity"
        by (rule fold_max_head)
      moreover have "Num (mateScore False) < Num (staticScore ch (make_move ch ?g r))"
        using rw black by (simp add: better_def)
      ultimately have "Num (mateScore False)
          < fold max (Num (staticScore ch (make_move ch ?g r)) # ?vs) NegInfinity" by order
      then show ?thesis using black unfolding v by (simp add: better_def)
    qed
  qed
qed

lemma fullRootScores_mate:
  assumes rules: "chessRules ch" and sub: "set ms \<subseteq> set (moves ch game)"
    and d: "dep = 1 \<or> dep = 2"
  shows "\<forall>(sc, m) \<in> set (fullRootScores ch game ms dep). m \<in> set (moves ch game) \<and>
           (isMate ch game m \<longrightarrow> sc = Num (mateScore (turn ch game = White))) \<and>
           (\<not> isMate ch game m \<longrightarrow>
              better (turn ch game = White) (Num (mateScore (turn ch game = White))) sc)"
proof -
  have "\<And>m. m \<in> set ms \<Longrightarrow> \<not> isMate ch game m \<Longrightarrow>
      better (turn ch game = White) (Num (mateScore (turn ch game = White)))
        (fullMinimax ch (nat (dep - 1)) (make_move ch game m)
           (turn ch (make_move ch game m) = White))"
  proof -
    fix m assume m: "m \<in> set ms" and q: "\<not> isMate ch game m"
    from m sub have ml: "m \<in> set (moves ch game)" by blast
    from d show "better (turn ch game = White) (Num (mateScore (turn ch game = White)))
        (fullMinimax ch (nat (dep - 1)) (make_move ch game m)
           (turn ch (make_move ch game m) = White))"
    proof
      assume "dep = 1"
      then show ?thesis
        using quiet_worse [OF rules, of "make_move ch game m" "turn ch game = White"] q
        by (simp add: isMate_def)
    next
      assume "dep = 2"
      then have "nat (dep - 1) = Suc 0" by simp
      then show ?thesis using fullMinimax_one_worse [OF rules ml q] by simp
    qed
  qed
  then show ?thesis
    using sub fullMinimax_mate [OF rules]
    by (auto simp add: fullRootScores_def Let_def)
qed

lemma fullRootScores_has_mate:
  "\<exists>m \<in> set ms. isMate ch game m \<Longrightarrow>
     \<exists>(sc, m) \<in> set (fullRootScores ch game ms dep). isMate ch game m"
  by (auto simp add: fullRootScores_def Let_def)

lemma fullSearch_last:
  assumes "1 \<le> maxDepth"
    and "snd (firstBest (turn ch game = White)
                (fullRootScores ch game (orderMoves (moves ch game)) maxDepth)
                ((if turn ch game = White then NegInfinity else Infinity), None)) = Some m"
  shows "fullSearch ch maxDepth game = Some m"
  using assms(2) by (simp add: fullSearch_def Let_def upto_rec2 [OF assms(1)])

lemma hard_mate_in_one:
  assumes rules: "chessRules ch" and mate: "\<exists>m \<in> set (moves ch game). isMate ch game m"
    and hard: "difficulty st = Hard" and d: "depth st = 1 \<or> depth st = 2"
    and nt: "\<forall>k. now rt k \<le> now rt (clock_reads s) + (if timeLimitMs st = 0 then 300 else timeLimitMs st)"
  shows "\<exists>m \<in> set (moves ch game). isMate ch game m \<and>
           fst (getBestMove ch rt st game s) = Inr (Some (toAIMove m))"
proof -
  let ?w = "turn ch game = White"
  let ?ms = "orderMoves (moves ch game)"
  have sub: "set ?ms \<subseteq> set (moves ch game)" by (simp add: set_orderMoves)
  have has: "\<exists>m \<in> set ?ms. isMate ch game m" using mate by (simp add: set_orderMoves)
  have "\<exists>m \<in> set (moves ch game).
      snd (firstBest ?w (fullRootScores ch game ?ms (depth st))
             ((if ?w then NegInfinity else Infinity), None)) = Some m \<and> isMate ch game m"
    using better_mate_init [of ?w] fullRootScores_has_mate [OF has, of "depth st"]
    by (intro firstBest_mate [OF fullRootScores_mate [OF rules sub d]]) simp
  then obtain m where m: "m \<in> set (moves ch game)" "isMate ch game m"
    and pick: "snd (firstBest ?w (fullRootScores ch game ?ms (depth st))
             ((if ?w then NegInfinity else Infinity), None)) = Some m"
    by blast
  have one: "1 \<le> depth st" using d by auto
  have "fullSearch ch (depth st) game = Some m" by (rule fullSearch_last [OF one pick])
  then have "fst (getBestMove ch rt st game s) = Inr (Some (toAIMove m))"
    using hard_search_is_fullSearch [OF hard nt, of ch game] by simp
  with m show ?thesis by blast
qed

lemma evaluatePosition_mate:
  assumes "chessRules ch" and "m \<in> set (moves ch game)" and "isMate ch game m"
  shows "evaluatePosition ch rt st (make_move ch game m) s = (mateScore (turn ch game = White), s)"
  using staticScore_mate [OF assms] assms(3)
  by (simp add: evaluatePosition_def staticScore_def isMate_def)

lemma evaluatePosition_quiet:
  assumes rules: "chessRules ch" and q: "\<not> isCheckmate ch g"
    and rnd: "\<forall>k. 0 \<le> random rt k \<and> random rt k < 1"
  shows "\<bar>fst (evaluatePosition ch rt st g s)\<bar> < 1000"
proof -
  have b: "\<bar>boardScore ch g\<bar> < 999" using rules by (rule chessRules_bound)
  have r: "0 \<le> random rt (random_draws s)" "random rt (random_draws s) < 1"
    using rnd by simp_all
  show ?thesis using q b r by (auto simp add: evaluatePosition_def Let_def)
qed

lemma mediumLoop_mate:
  assumes rules: "chessRules ch" and rnd: "\<forall>k. 0 \<le> random rt k \<and> random rt k < 1"
  shows "set ms \<subseteq> set (moves ch game) \<Longrightarrow>
     (better (turn ch game = White) (Num (mateScore (turn ch game = White))) bs \<and>
        (\<exists>m \<in> set ms. isMate ch game m)) \<or>
     (bs = Num (mateScore (turn ch game = White)) \<and>
        (\<exists>m0 \<in> set (moves ch game). bm = Some m0 \<and> isMate ch game m0)) \<Longrightarrow>
     \<exists>m \<in> set (moves ch game).
        snd (fst (mediumLoop ch rt st (turn ch game = White) game ms (bs, bm) s)) = Some m \<and>
        isMate ch game m"
proof (induction ms arbitrary: bs bm s)
  case Nil
  then show ?case by simp
next
  case (Cons x xs)
  let ?w = "turn ch game = White"
  let ?g = "make_move ch game x"
  from Cons.prems(1) have x: "x \<in> set (moves ch game)" and sub: "set xs \<subseteq> set (moves ch game)"
    by simp_all
  obtain sc t where e: "evaluatePosition ch rt st ?g s = (sc, t)"
    by (cases "evaluatePosition ch rt st ?g s")
  have xm: "isMate ch game x \<Longrightarrow> sc = mateScore ?w"
    using evaluatePosition_mate [OF rules x, of rt st s] e by simp
  have xq: "\<not> isMate ch game x \<Longrightarrow> better ?w (Num (mateScore ?w)) (Num sc)"
    using evaluatePosition_quiet [OF rules _ rnd, of ?g st s] e
    by (auto simp add: isMate_def better_mate_Num)
  have nb: "\<not> better ?w (Num sc) (Num (mateScore ?w))"
    using xm xq better_irrefl [of ?w "Num (mateScore ?w)"]
      better_asym [of ?w "Num (mateScore ?w)" "Num sc"]
    by (cases "isMate ch game x") auto
  from Cons.prems(2) show ?case
  proof
    assume held: "bs = Num (mateScore ?w) \<and>
        (\<exists>m0 \<in> set (moves ch game). bm = Some m0 \<and> isMate ch game m0)"
    have "\<exists>m \<in> set (moves ch game).
        snd (fst (mediumLoop ch rt st ?w game xs (bs, bm) t)) = Some m \<and> isMate ch game m"
      using held by (intro Cons.IH [OF sub]) simp
    then show ?thesis using held nb by (simp add: e)
  next
    assume unset: "better ?w (Num (mateScore ?w)) bs \<and> (\<exists>m \<in> set (x # xs). isMate ch game m)"
    show ?thesis
    proof (cases "isMate ch game x")
      case True
      have "\<exists>m \<in> set (moves ch game).
          snd (fst (mediumLoop ch rt st ?w game xs (Num (mateScore ?w), Some x) t)) = Some m \<and>
          isMate ch game m"
        using True x by (intro Cons.IH [OF sub]) simp
      then show ?thesis using unset xm [OF True] by (simp add: e)
    next
      case False
      then have more: "\<exists>m \<in> set xs. isMate ch game m" using unset by auto
      show ?thesis
      proof (cases "better ?w (Num sc) bs")
        case True
        have "\<exists>m \<in> set (moves ch game).
            snd (fst (mediumLoop ch rt st ?w game xs (Num sc, Some x) t)) = Some m \<and>
            isMate ch game m"
          using xq [OF False] more by (intro Cons.IH [OF sub]) simp
        then show ?thesis using True by (simp add: e)
      next
        case nbetter: False
        have "\<exists>m \<in> set (moves ch game).
            snd (fst (mediumLoop ch rt st ?w game xs (bs, bm) t)) = Some m \<and> isMate ch game m"
          using unset more by (intro Cons.IH [OF sub]) simp
        then show ?thesis using nbetter by (simp add: e)
      qed
    qed
  qed
qed

lemma medium_mate_in_one:
  assumes rules: "chessRules ch" and mate: "\<exists>m \<in> set (moves ch game). isMate ch game m"
    and medium: "difficulty st = Medium" and rnd: "\<forall>k. 0 \<le> random rt k \<and> random rt k < 1"
  shows "\<exists>m \<in> set (moves ch game). isMate ch game m \<and>
           fst (getBestMove ch rt st game s) = Inr (Some (toAIMove m))"
proof -
  let ?w = "turn ch game = White"
  let ?ms = "orderMoves (moves ch game)"
  let ?init = "((if ?w then NegInfinity else Infinity), None :: move option)"
  have ne: "moves ch game \<noteq> []" using mate by auto
  have sub: "set ?ms \<subseteq> set (moves ch game)" by (simp add: set_orderMoves)
  have has: "\<exists>m \<in> set ?ms. isMate ch game m" using mate by (simp add: set_orderMoves)
  obtain bs bm t where f: "mediumLoop ch rt st ?w game ?ms ?init s = ((bs, bm), t)"
    by (cases "mediumLoop ch rt st ?w game ?ms ?init s") auto
  have "\<exists>m \<in> set (moves ch game).
      snd (fst (mediumLoop ch rt st ?w game ?ms ((if ?w then NegInfinity else Infinity), None) s))
        = Some m \<and> isMate ch game m"
    using better_mate_init [of ?w] has by (intro mediumLoop_mate [OF rules rnd sub]) simp
  then obtain m where m: "m \<in> set (moves ch game)" "isMate ch game m" and bm: "bm = Some m"
    using f by auto
  have "fst (getBestMove ch rt st game s) = Inr (Some (toAIMove m))"
    using ne medium f bm by (simp add: getBestMove_def Let_def)
  with m show ?thesis by blast
qed

lemma evaluatePosition_quiet_hard:
  assumes rules: "chessRules ch" and q: "\<not> isCheckmate ch g" and hard: "difficulty st = Hard"
  shows "\<bar>fst (evaluatePosition ch rt st g s)\<bar> < 1000"
  using chessRules_bound [OF rules, of g] q hard by (simp add: evaluatePosition_def Let_def)

lemma chessRules_demo: "chessRules demo"
  unfolding chessRules_def
proof (intro conjI allI ballI impI)
  fix g m assume "m \<in> set (moves demo g)"
  then show "turn demo (make_move demo g m) \<noteq> turn demo g"
    by (auto simp add: demo_def quietMate_def grab_def isCapture_def split: if_splits)
next
  fix g assume "moves demo g = []"
  then show "isGameOver demo g" by (auto simp add: demo_def split: if_splits)
next
  fix g assume "isCheckmate demo g"
  then show "isGameOver demo g" by (auto simp add: demo_def)
next
  fix g show "kingCount demo g White \<le> 1"
    by (simp add: kingCount_def kingAt_def upt8 demo_def demoBoard_def)
next
  fix g show "kingCount demo g Black \<le> 1"
    by (simp add: kingCount_def kingAt_def upt8 demo_def demoBoard_def)
qed

lemma demo_has_mate: "\<exists>m \<in> set (moves demo 0). isMate demo 0 m"
  by (simp add: demo_def isMate_def quietMate_def grab_def isCapture_def)

subsection \<open>The hard search and its trace\<close>

lemma rootLoop_scored:
  "rootLoop ch rt st deadline dep w game ms best s =
     (firstBest w (fst (scoredBeforeDeadline ch rt st deadline dep game ms s)) best,
      snd (scoredBeforeDeadline ch rt st deadline dep game ms s))"
proof (induction ms arbitrary: best s)
  case Nil
  show ?case by simp
next
  case (Cons x xs)
  obtain bs bm where best: "best = (bs, bm)" by (cases best)
  let ?g = "make_move ch game x"
  obtain sc t where e: "minimax ch rt st deadline (nat (dep - 1)) ?g (turn ch ?g = White)
      NegInfinity Infinity (tick s) = (sc, t)"
    by (cases "minimax ch rt st deadline (nat (dep - 1)) ?g (turn ch ?g = White)
      NegInfinity Infinity (tick s)")
  show ?case
    using Cons.IH [of "(sc, Some x)" t] Cons.IH [of "(bs, bm)" t]
    by (simp add: best e split_beta)
qed

lemma scored_prefix:
  "map snd (fst (scoredBeforeDeadline ch rt st deadline dep game ms s))
     = take (length (fst (scoredBeforeDeadline ch rt st deadline dep game ms s))) ms"
proof (induction ms arbitrary: s)
  case Nil
  show ?case by simp
next
  case (Cons x xs)
  let ?g = "make_move ch game x"
  obtain sc t where e: "minimax ch rt st deadline (nat (dep - 1)) ?g (turn ch ?g = White)
      NegInfinity Infinity (tick s) = (sc, t)"
    by (cases "minimax ch rt st deadline (nat (dep - 1)) ?g (turn ch ?g = White)
      NegInfinity Infinity (tick s)")
  show ?case using Cons.IH [of t] by (simp add: e split_beta)
qed

lemma depthsRun_done:
  "\<not> dep \<le> depth st \<Longrightarrow> depthsRun ch rt st deadline game ms dep s = []"
  by (subst depthsRun.simps) simp

lemma depthsRun_step:
  "dep \<le> depth st \<Longrightarrow>
   scoredBeforeDeadline ch rt st deadline dep game ms s = (scored, t) \<Longrightarrow>
   depthsRun ch rt st deadline game ms dep s =
     (if now rt (clock_reads t) > deadline then [scored]
      else scored # depthsRun ch rt st deadline game ms (dep + 1) (tick t))"
  by (subst depthsRun.simps) simp

lemma depthsRun_prefix:
  "\<forall>scored \<in> set (depthsRun ch rt st deadline game ms dep s).
     map snd scored = take (length scored) ms"
proof (induction "nat (depth st + 1 - dep)" arbitrary: dep s)
  case 0
  then have "\<not> dep \<le> depth st" by simp
  then show ?case by (simp add: depthsRun_done)
next
  case (Suc n)
  from Suc.hyps(2) have le: "dep \<le> depth st" by simp
  obtain scored t where f: "scoredBeforeDeadline ch rt st deadline dep game ms s = (scored, t)"
    by (cases "scoredBeforeDeadline ch rt st deadline dep game ms s")
  have p: "map snd scored = take (length scored) ms"
    using scored_prefix [of ch rt st deadline dep game ms s] by (simp add: f)
  have n: "n = nat (depth st + 1 - (dep + 1))" using Suc.hyps(2) by simp
  show ?case
    using p Suc.hyps(1) [OF n, of "tick t"] by (simp add: depthsRun_step [OF le f])
qed

lemma deepen_runs:
  "fst (deepen ch rt st deadline w game ms dep sel s)
     = fold (\<lambda>best selectedMove. case best of Some m \<Rightarrow> Some m | None \<Rightarrow> selectedMove)
         (map (bestOfDepth w) (depthsRun ch rt st deadline game ms dep s)) sel"
proof (induction "nat (depth st + 1 - dep)" arbitrary: dep sel s)
  case 0
  then have "\<not> dep \<le> depth st" by simp
  then show ?case by (simp add: deepen_done depthsRun_done)
next
  case (Suc n)
  from Suc.hyps(2) have le: "dep \<le> depth st" by simp
  let ?init = "((if w then NegInfinity else Infinity), None :: move option)"
  obtain scored t where f: "scoredBeforeDeadline ch rt st deadline dep game ms s = (scored, t)"
    by (cases "scoredBeforeDeadline ch rt st deadline dep game ms s")
  obtain bs bm where fb: "firstBest w scored ?init = (bs, bm)"
    by (cases "firstBest w scored ?init")
  have r: "rootLoop ch rt st deadline dep w game ms ?init s = ((bs, bm), t)"
    using rootLoop_scored [of ch rt st deadline dep w game ms ?init s] by (simp add: f fb)
  have b: "bestOfDepth w scored = bm" by (simp add: bestOfDepth_def fb)
  have n: "n = nat (depth st + 1 - (dep + 1))" using Suc.hyps(2) by simp
  note ih = Suc.hyps(1) [OF n, of "case bm of Some m \<Rightarrow> Some m | None \<Rightarrow> sel" "tick t"]
  show ?case
    using ih b by (simp add: deepen_step [OF le r] depthsRun_step [OF le f])
qed

lemma fold_lastFound:
  "fold (\<lambda>best selectedMove. case best of Some m \<Rightarrow> Some m | None \<Rightarrow> selectedMove) bests sel
     = (case filter (\<lambda>b. b \<noteq> None) bests of [] \<Rightarrow> sel | found \<Rightarrow> last found)"
proof (induction bests arbitrary: sel)
  case Nil
  show ?case by simp
next
  case (Cons b bs)
  show ?case
  proof (cases b)
    case None
    then show ?thesis using Cons.IH [of sel] by simp
  next
    case (Some m)
    then show ?thesis using Cons.IH [of "Some m"] by (simp split: list.splits)
  qed
qed

lemma lastFound_if:
  "lastFound bests =
     (if filter (\<lambda>b. b \<noteq> None) bests = [] then None else last (filter (\<lambda>b. b \<noteq> None) bests))"
  by (cases "filter (\<lambda>b. b \<noteq> None) bests") (simp_all add: lastFound_def)

lemma lastFound_snoc:
  "bests \<noteq> [] \<Longrightarrow>
     lastFound bests = (case last bests of Some m \<Rightarrow> Some m | None \<Rightarrow> lastFound (butlast bests))"
proof -
  assume "bests \<noteq> []"
  then obtain bs b where s: "bests = bs @ [b]" by (metis append_butlast_last_id)
  show ?thesis by (cases b) (simp_all add: s lastFound_if)
qed

lemma getBestMove_hard_runs:
  assumes "moves ch game \<noteq> []" and "difficulty st = Hard"
  shows "fst (getBestMove ch rt st game s) =
     Inr (map_option toAIMove (lastFound (map (bestOfDepth (turn ch game = White))
       (depthsRun ch rt st
          (now rt (clock_reads s) + (if timeLimitMs st = 0 then 300 else timeLimitMs st))
          game (orderMoves (moves ch game)) 1 (tick s)))))"
  by (simp add: getBestMove_hard_eq [OF assms] deepen_runs fold_lastFound lastFound_def)


lemma rootLoop_late:
  "now rt (clock_reads s) > deadline \<Longrightarrow>
     rootLoop ch rt st deadline dep w game (m # rest) best s = (best, tick s)"
  by (cases best) simp

lemma deepen_final:
  assumes late: "\<forall>k \<ge> clock_reads s. now rt k > deadline"
  shows "fst (deepen ch rt st deadline w game ms dep sel s) = sel"
proof (cases "dep \<le> depth st")
  case False
  then show ?thesis by (simp add: deepen_done)
next
  case True
  let ?init = "((if w then NegInfinity else Infinity), None :: move option)"
  have now: "now rt (clock_reads s) > deadline" using late by simp
  have "\<exists>t. rootLoop ch rt st deadline dep w game ms ?init s = (?init, t) \<and>
      clock_reads s \<le> clock_reads t"
  proof (cases ms)
    case Nil
    then show ?thesis by simp
  next
    case (Cons x xs)
    then show ?thesis using rootLoop_late [OF now, of ch st dep w game x xs ?init]
      by (simp add: tick_def)
  qed
  then obtain t where r: "rootLoop ch rt st deadline dep w game ms ?init s
      = (((if w then NegInfinity else Infinity), None), t)"
    and t: "clock_reads s \<le> clock_reads t" by auto
  have "now rt (clock_reads t) > deadline" using late t by simp
  then show ?thesis by (simp add: deepen_step [OF True r])
qed

lemma demo_runs_late:
  "depthsRun demo lateClock (settingsFor Hard 3 1500) 1500 0 [grab, quietMate] 1 (tick io0)
     = [[(Num 0, grab), (Num 1000, quietMate)], [(Num 0, grab)]]"
  by code_simp

lemma demo_runs_mid:
  "depthsRun demo midClock (settingsFor Hard 3 1500) 1500 0 [grab, quietMate] 1 (tick io0)
     = [[(Num 0, grab), (Num 1000, quietMate)], []]"
  by code_simp

lemma demo_setup:
  "difficulty (settingsFor Hard 3 1500) = Hard" "moves demo 0 \<noteq> []"
  "orderMoves (moves demo 0) = [grab, quietMate]" "turn demo 0 = White"
  "now lateClock (clock_reads io0)
     + (if timeLimitMs (settingsFor Hard 3 1500) = 0 then 300 else timeLimitMs (settingsFor Hard 3 1500))
     = 1500"
  "now midClock (clock_reads io0)
     + (if timeLimitMs (settingsFor Hard 3 1500) = 0 then 300 else timeLimitMs (settingsFor Hard 3 1500))
     = 1500"
  by (simp_all add: settingsFor_def demo_def orderMoves_eq isCapture_def grab_def quietMate_def
      io0_def lateClock_def midClock_def)

lemma demo_bests:
  "bestOfDepth True [(Num 0, grab), (Num 1000, quietMate)] = Some quietMate"
  "bestOfDepth True [(Num 0, grab)] = Some grab"
  "bestOfDepth True [] = None"
  by (simp_all add: bestOfDepth_def better_def less_number_def)

section \<open>The position evaluator\<close>

text \<open>
  C3. In a checkmate position \<^verbatim>\<open>evaluatePosition\<close> returns exactly \<open>-1000\<close>
  when the side to move (the mated side) is White and exactly \<open>1000\<close> when it
  is Black, whatever the settings.
\<close>

theorem evaluatePosition_checkmate:
  "isCheckmate ch game \<Longrightarrow>
     (turn ch game = White \<longrightarrow> fst (evaluatePosition ch rt st game s) = -1000) \<and>
     (turn ch game = Black \<longrightarrow> fst (evaluatePosition ch rt st game s) = 1000)"
  by (simp add: evaluatePosition_def)

theorem evaluatePosition_checkmate_witness:
  "isCheckmate demo 2 \<and> turn demo 2 = Black \<and>
   fst (evaluatePosition demo stillClock (settingsFor Medium 3 800) 2 io0) = 1000"
  using evaluatePosition_checkmate [of demo 2 stillClock "settingsFor Medium 3 800" io0]
  by (simp add: demo_def)

text \<open>
  C10. In a terminal position (checkmate or draw) \<^verbatim>\<open>evaluatePosition\<close>
  returns the exact terminal score (\<open>-1000\<close>, \<open>1000\<close> or \<open>0\<close>) at every
  difficulty, the easy and medium ones included: no noise is added and no
  random number is drawn, the counters coming back unchanged.
\<close>

theorem evaluatePosition_terminal_exact:
  "isCheckmate ch game \<or> isDraw ch game \<Longrightarrow>
     evaluatePosition ch rt st game s =
       ((if isCheckmate ch game then (if turn ch game = White then -1000 else 1000) else 0), s)"
  by (auto simp add: evaluatePosition_def)

theorem evaluatePosition_terminal_exact_witness:
  "(isCheckmate demo 4 \<or> isDraw demo 4) \<and>
   evaluatePosition demo stillClock (settingsFor Easy 2 400) 4 io0 = (1000, io0)"
  using evaluatePosition_terminal_exact [of demo 4 stillClock "settingsFor Easy 2 400" io0]
  by (simp add: demo_def)

text \<open>
  C2. The positional lookup is meant to read the table by the board's
  (rank, file) index as it stands for a White piece and with the rank index
  mirrored for a Black piece. \<^verbatim>\<open>getPositionValue\<close> does the opposite: a
  White pawn on d2 (row 6 of \<^verbatim>\<open>game.board()\<close>, whose row 0 is rank 8) reads
  row 1 of the pawn table, the bonus of a pawn about to promote, where row 6
  holds \<open>-2\<close>; a Black pawn on d7 (row 1) reads row 1 unmirrored.
\<close>

theorem getPositionValue_white_pawn_d2:
  "getPositionValue \<lparr>ptype = Pawn, pcolor = White\<rparr> 6 3 = 5 \<and>
   PAWN_POSITION_VALUES ! 6 ! 3 = -2 \<and>
   getPositionValue \<lparr>ptype = Pawn, pcolor = Black\<rparr> 1 3 = 5 \<and>
   PAWN_POSITION_VALUES ! (7 - 1) ! 3 = -2"
  by (simp add: getPositionValue_def PAWN_POSITION_VALUES_def)

text \<open>
  C4. For a position and its colour-mirrored counterpart the noise-free
  (hard difficulty) evaluation is exactly negated.
\<close>

theorem evaluatePosition_color_mirror:
  "difficulty st = Hard \<Longrightarrow> colorMirrored ch g g' \<Longrightarrow>
     fst (evaluatePosition ch rt st g' s) = - fst (evaluatePosition ch rt st g s)"
  using boardScore_mirror [of ch g g']
  by (auto simp add: evaluatePosition_def colorMirrored_def swapColor_def Let_def)

theorem evaluatePosition_color_mirror_witness:
  "difficulty (settingsFor Hard 4 1500) = Hard \<and> colorMirrored pawnDemo False True \<and>
   fst (evaluatePosition pawnDemo stillClock (settingsFor Hard 4 1500) False io0) = 6 \<and>
   fst (evaluatePosition pawnDemo stillClock (settingsFor Hard 4 1500) True io0) = - 6"
proof -
  have h: "difficulty (settingsFor Hard 4 1500) = Hard" by (simp add: settingsFor_def)
  have v: "fst (evaluatePosition pawnDemo stillClock (settingsFor Hard 4 1500) False io0) = 6"
    by (simp add: evaluatePosition_def boardScore_def upt8 addSquare_def pawnDemo_def pawnBoard_def
      getPositionValue_def KING_POSITION_VALUES_def PAWN_POSITION_VALUES_def settingsFor_def)
  show ?thesis
    using h colorMirrored_pawnDemo v
      evaluatePosition_color_mirror [OF h colorMirrored_pawnDemo, of stillClock io0]
    by simp
qed

section \<open>The move orderer\<close>

text \<open>
  C8. The ordering of a move list is a permutation of it, made of all its
  captures in their original relative order followed by all its non-captures
  in their original relative order: every capture precedes every
  non-capture, and the sort is stable.
\<close>

theorem orderMoves_captures_first_stable:
  "mset (orderMoves ms) = mset ms \<and>
   orderMoves ms = filter isCapture ms @ filter (\<lambda>m. \<not> isCapture m) ms"
  using orderMoves_eq [of ms] by (simp add: orderMoves_def)

section \<open>Properties of move selection\<close>

text \<open>
  C1, as the code has it. With no legal move \<^verbatim>\<open>getBestMove\<close> returns
  \<^verbatim>\<open>null\<close> at every difficulty. With at least one legal move it returns the
  \<^verbatim>\<open>from\<close>/\<^verbatim>\<open>to\<close>/\<^verbatim>\<open>promotion\<close> of a legal move at the easy
  difficulty (for a random number in \<open>[0, 1)\<close>) and at the medium difficulty;
  at the hard difficulty it does so when the configured depth is at least 1
  and the clock reading taken before the first root move is not past the
  deadline, and in every case it returns either such a move or \<^verbatim>\<open>null\<close>.
\<close>

theorem getBestMove_legal_or_none:
  "(moves ch game = [] \<longrightarrow> getBestMove ch rt st game s = (Inr None, s)) \<and>
   (moves ch game \<noteq> [] \<and> difficulty st = Easy \<and>
      0 \<le> random rt (random_draws s) \<and> random rt (random_draws s) < 1 \<longrightarrow>
      (\<exists>m \<in> set (moves ch game). fst (getBestMove ch rt st game s) = Inr (Some (toAIMove m)))) \<and>
   (moves ch game \<noteq> [] \<and> difficulty st = Medium \<longrightarrow>
      (\<exists>m \<in> set (moves ch game). fst (getBestMove ch rt st game s) = Inr (Some (toAIMove m)))) \<and>
   (moves ch game \<noteq> [] \<and> difficulty st = Hard \<and> 1 \<le> depth st \<and>
      now rt (Suc (clock_reads s))
        \<le> now rt (clock_reads s) + (if timeLimitMs st = 0 then 300 else timeLimitMs st) \<longrightarrow>
      (\<exists>m \<in> set (moves ch game). fst (getBestMove ch rt st game s) = Inr (Some (toAIMove m)))) \<and>
   (moves ch game \<noteq> [] \<and> difficulty st = Hard \<longrightarrow>
      fst (getBestMove ch rt st game s) = Inr None \<or>
      (\<exists>m \<in> set (moves ch game). fst (getBestMove ch rt st game s) = Inr (Some (toAIMove m))))"
  using getBestMove_none [of ch game rt st s] getBestMove_easy [of ch game st rt s]
    getBestMove_medium [of ch game st rt s] getBestMove_hard_some [of ch game st rt s]
    getBestMove_hard [of ch game st rt s]
  by blast

theorem getBestMove_legal_or_none_witness:
  "moves demo 2 = [] \<and>
   getBestMove demo stillClock (settingsFor Easy 2 400) 2 io0 = (Inr None, io0) \<and>
   moves demo 0 \<noteq> [] \<and>
   (\<exists>m \<in> set (moves demo 0).
      fst (getBestMove demo stillClock (settingsFor Easy 2 400) 0 io0) = Inr (Some (toAIMove m))) \<and>
   (\<exists>m \<in> set (moves demo 0).
      fst (getBestMove demo stillClock (settingsFor Medium 3 800) 0 io0) = Inr (Some (toAIMove m))) \<and>
   (\<exists>m \<in> set (moves demo 0).
      fst (getBestMove demo stillClock (settingsFor Hard 4 1500) 0 io0) = Inr (Some (toAIMove m)))"
proof -
  have e: "moves demo 2 = []" and n: "moves demo 0 \<noteq> []"
    by (simp_all add: demo_def)
  have r: "0 \<le> random stillClock (random_draws io0)" "random stillClock (random_draws io0) < 1"
    by (simp_all add: stillClock_def)
  have d: "difficulty (settingsFor Easy 2 400) = Easy" "difficulty (settingsFor Medium 3 800) = Medium"
    "difficulty (settingsFor Hard 4 1500) = Hard" "1 \<le> depth (settingsFor Hard 4 1500)"
    by (simp_all add: settingsFor_def)
  have c: "now stillClock (Suc (clock_reads io0)) \<le> now stillClock (clock_reads io0) +
      (if timeLimitMs (settingsFor Hard 4 1500) = 0 then 300 else timeLimitMs (settingsFor Hard 4 1500))"
    by (simp add: stillClock_def settingsFor_def)
  have 1: "getBestMove demo stillClock (settingsFor Easy 2 400) 2 io0 = (Inr None, io0)"
    using getBestMove_legal_or_none [of demo 2 stillClock "settingsFor Easy 2 400" io0, THEN conjunct1] e
    by simp
  have 2: "\<exists>m \<in> set (moves demo 0).
      fst (getBestMove demo stillClock (settingsFor Easy 2 400) 0 io0) = Inr (Some (toAIMove m))"
    using getBestMove_legal_or_none [of demo 0 stillClock "settingsFor Easy 2 400" io0,
        THEN conjunct2, THEN conjunct1] n r d(1)
    by simp
  have 3: "\<exists>m \<in> set (moves demo 0).
      fst (getBestMove demo stillClock (settingsFor Medium 3 800) 0 io0) = Inr (Some (toAIMove m))"
    using getBestMove_legal_or_none [of demo 0 stillClock "settingsFor Medium 3 800" io0,
        THEN conjunct2, THEN conjunct2, THEN conjunct1] n d(2)
    by simp
  have 4: "\<exists>m \<in> set (moves demo 0).
      fst (getBestMove demo stillClock (settingsFor Hard 4 1500) 0 io0) = Inr (Some (toAIMove m))"
    using getBestMove_legal_or_none [of demo 0 stillClock "settingsFor Hard 4 1500" io0,
        THEN conjunct2, THEN conjunct2, THEN conjunct2, THEN conjunct1] n d(3,4) c
    by simp
  show ?thesis using e n 1 2 3 4 by simp
qed

text \<open>
  The claim as stated fails at the hard difficulty: when the clock has passed
  the deadline at the first root move, no move is scored and the result is
  \<^verbatim>\<open>null\<close> although two moves are legal.
\<close>

theorem getBestMove_hard_timeout_counterexample:
  "moves demo 0 = [quietMate, grab] \<and> difficulty (settingsFor Hard 4 1500) = Hard \<and>
   fst (getBestMove demo jumpClock (settingsFor Hard 4 1500) 0 io0) = Inr None"
  by code_simp

text \<open>
  C9. At the hard difficulty the selected move does not depend on the random
  source: two runs with the same clock, from states with the same clock
  counter, return the same result whatever the random sources and the numbers
  of draws made before, and the run draws no random number.
\<close>

theorem getBestMove_hard_no_random:
  "difficulty st = Hard \<Longrightarrow> now rt' = now rt \<Longrightarrow> clock_reads s' = clock_reads s \<Longrightarrow>
     fst (getBestMove ch rt' st game s') = fst (getBestMove ch rt st game s) \<and>
     random_draws (snd (getBestMove ch rt st game s)) = random_draws s"
proof -
  assume h: "difficulty st = Hard" and n: "now rt' = now rt" and c: "clock_reads s' = clock_reads s"
  have tt: "clock_reads (tick s') = clock_reads (tick s)" using c by (simp add: tick_def)
  let ?dl = "now rt (clock_reads s) + (if timeLimitMs st = 0 then 300 else timeLimitMs st)"
  note d = clockOnly_deepen [OF h n tt, of ch ?dl "turn ch game = White" game
      "orderMoves (moves ch game)" 1 None]
  show ?thesis
    using d h n c by (simp add: getBestMove_def Let_def split_beta tick_def)
qed

theorem getBestMove_hard_no_random_witness:
  "difficulty (settingsFor Hard 3 1500) = Hard \<and> now zeroRandom = now stillClock \<and>
   clock_reads (ioAt 0 7) = clock_reads io0 \<and>
   fst (getBestMove demo zeroRandom (settingsFor Hard 3 1500) 0 (ioAt 0 7)) =
   fst (getBestMove demo stillClock (settingsFor Hard 3 1500) 0 io0) \<and>
   random_draws (snd (getBestMove demo stillClock (settingsFor Hard 3 1500) 0 io0)) = random_draws io0"
proof -
  have h: "difficulty (settingsFor Hard 3 1500) = Hard" by (simp add: settingsFor_def)
  have n: "now zeroRandom = now stillClock" by (simp add: zeroRandom_def stillClock_def)
  have c: "clock_reads (ioAt 0 7) = clock_reads io0" by (simp add: ioAt_def io0_def)
  show ?thesis using h n c getBestMove_hard_no_random [OF h n c, of demo 0] by simp
qed

text \<open>
  C6. In the hard search a passed deadline is not an error: the result is a
  move or \<^verbatim>\<open>null\<close>, and it is the best move of the last depth that found
  one, where the best move of a depth is the first strictly better one among
  the root moves scored before the deadline stopped that depth's root loop.
  The root moves scored at a depth are an initial part of the ordered root
  moves, the rest being abandoned; a depth cut short that found a best move
  gives the selection, one that found none leaves the selection of the
  earlier depths. In the loops themselves, a root loop that reads the clock
  past the deadline stops at once with its best move so far, and once every
  further reading is past the deadline the deepening returns the selection
  made so far. The result is \<^verbatim>\<open>null\<close> only if there is no legal move, the
  configured depth is below 1, or the deadline had passed before the first
  root move of depth 1.
\<close>

theorem hard_search_timeout_soft:
  "(difficulty st = Hard \<longrightarrow> (\<exists>r. fst (getBestMove ch rt st game s) = Inr r)) \<and>
   (difficulty st = Hard \<and> moves ch game \<noteq> [] \<longrightarrow>
      fst (getBestMove ch rt st game s) =
        Inr (map_option toAIMove (lastFound (map (bestOfDepth (turn ch game = White))
          (depthsRun ch rt st
             (now rt (clock_reads s) + (if timeLimitMs st = 0 then 300 else timeLimitMs st))
             game (orderMoves (moves ch game)) 1 (tick s)))))) \<and>
   (\<forall>scored \<in> set (depthsRun ch rt st deadline game ms dep s0).
      map snd scored = take (length scored) ms) \<and>
   (bests \<noteq> [] \<longrightarrow>
      lastFound bests =
        (case last bests of Some m \<Rightarrow> Some m | None \<Rightarrow> lastFound (butlast bests))) \<and>
   (now rt (clock_reads s0) > deadline \<longrightarrow>
      rootLoop ch rt st deadline dep w game (m # rest) best s0 = (best, tick s0)) \<and>
   ((\<forall>k \<ge> clock_reads s0. now rt k > deadline) \<longrightarrow>
      fst (deepen ch rt st deadline w game ms dep sel s0) = sel) \<and>
   (difficulty st = Hard \<and> fst (getBestMove ch rt st game s) = Inr None \<longrightarrow>
      moves ch game = [] \<or> depth st < 1 \<or>
      now rt (Suc (clock_reads s))
        > now rt (clock_reads s) + (if timeLimitMs st = 0 then 300 else timeLimitMs st))"
proof (intro conjI impI)
  assume h: "difficulty st = Hard"
  show "\<exists>r. fst (getBestMove ch rt st game s) = Inr r"
  proof (cases "moves ch game = []")
    case True
    then show ?thesis by (simp add: getBestMove_none)
  next
    case False
    then show ?thesis by (simp add: getBestMove_hard_eq [OF False h])
  qed
next
  assume "difficulty st = Hard \<and> moves ch game \<noteq> []"
  then show "fst (getBestMove ch rt st game s) =
        Inr (map_option toAIMove (lastFound (map (bestOfDepth (turn ch game = White))
          (depthsRun ch rt st
             (now rt (clock_reads s) + (if timeLimitMs st = 0 then 300 else timeLimitMs st))
             game (orderMoves (moves ch game)) 1 (tick s)))))"
    using getBestMove_hard_runs [of ch game st rt s] by simp
next
  show "\<forall>scored \<in> set (depthsRun ch rt st deadline game ms dep s0).
      map snd scored = take (length scored) ms"
    by (rule depthsRun_prefix)
next
  assume "bests \<noteq> []"
  then show "lastFound bests =
        (case last bests of Some m \<Rightarrow> Some m | None \<Rightarrow> lastFound (butlast bests))"
    by (rule lastFound_snoc)
next
  assume "now rt (clock_reads s0) > deadline"
  then show "rootLoop ch rt st deadline dep w game (m # rest) best s0 = (best, tick s0)"
    by (rule rootLoop_late)
next
  assume "\<forall>k \<ge> clock_reads s0. now rt k > deadline"
  then show "fst (deepen ch rt st deadline w game ms dep sel s0) = sel"
    by (rule deepen_final)
next
  assume a: "difficulty st = Hard \<and> fst (getBestMove ch rt st game s) = Inr None"
  show "moves ch game = [] \<or> depth st < 1 \<or>
      now rt (Suc (clock_reads s))
        > now rt (clock_reads s) + (if timeLimitMs st = 0 then 300 else timeLimitMs st)"
  proof (rule ccontr)
    assume n: "\<not> ?thesis"
    then have "\<exists>m \<in> set (moves ch game). fst (getBestMove ch rt st game s) = Inr (Some (toAIMove m))"
      using a getBestMove_hard_some [of ch game st rt s] by auto
    then show False using a by auto
  qed
qed

theorem hard_search_timeout_soft_witness:
  "difficulty (settingsFor Hard 3 1500) = Hard \<and> moves demo 0 \<noteq> [] \<and>
   depthsRun demo lateClock (settingsFor Hard 3 1500) 1500 0 [grab, quietMate] 1 (tick io0)
     = [[(Num 0, grab), (Num 1000, quietMate)], [(Num 0, grab)]] \<and>
   fst (getBestMove demo lateClock (settingsFor Hard 3 1500) 0 io0) = Inr (Some (toAIMove grab)) \<and>
   depthsRun demo midClock (settingsFor Hard 3 1500) 1500 0 [grab, quietMate] 1 (tick io0)
     = [[(Num 0, grab), (Num 1000, quietMate)], []] \<and>
   fst (getBestMove demo midClock (settingsFor Hard 3 1500) 0 io0) = Inr (Some (toAIMove quietMate)) \<and>
   now midClock (clock_reads (ioAt 6 0)) > 1500 \<and>
   rootLoop demo midClock (settingsFor Hard 3 1500) 1500 2 True 0 [grab, quietMate]
     (NegInfinity, None) (ioAt 6 0) = ((NegInfinity, None), ioAt 7 0) \<and>
   fst (deepen demo midClock (settingsFor Hard 3 1500) 1500 True 0 [grab, quietMate] 2
     (Some quietMate) (ioAt 6 0)) = Some quietMate \<and>
   fst (getBestMove demo jumpClock (settingsFor Hard 4 1500) 0 io0) = Inr None \<and>
   now jumpClock (Suc (clock_reads io0)) > now jumpClock (clock_reads io0) +
     (if timeLimitMs (settingsFor Hard 4 1500) = 0 then 300 else timeLimitMs (settingsFor Hard 4 1500))"
proof -
  have h4: "difficulty (settingsFor Hard 4 1500) = Hard" by (simp add: settingsFor_def)
  have j: "fst (getBestMove demo jumpClock (settingsFor Hard 4 1500) 0 io0) = Inr None"
    by code_simp
  have c6: "now midClock (clock_reads (ioAt 6 0)) > 1500"
    "\<forall>k \<ge> clock_reads (ioAt 6 0). now midClock k > 1500"
    by (simp_all add: midClock_def ioAt_def)
  have t: "tick (ioAt 6 0) = ioAt 7 0" by (simp add: ioAt_def tick_def)
  note L = hard_search_timeout_soft [of "settingsFor Hard 3 1500" demo lateClock 0 io0]
  note M = hard_search_timeout_soft [of "settingsFor Hard 3 1500" demo midClock 0 io0 1500
      "[grab, quietMate]" 2 "ioAt 6 0" _ True grab "[quietMate]" "(NegInfinity, None)" "Some quietMate"]
  note J = hard_search_timeout_soft [of "settingsFor Hard 4 1500" demo jumpClock 0 io0]
  have gl: "fst (getBestMove demo lateClock (settingsFor Hard 3 1500) 0 io0) = Inr (Some (toAIMove grab))"
    using L [THEN conjunct2, THEN conjunct1] demo_setup(1,2)
    by (simp add: demo_setup(3-6) demo_runs_late demo_bests lastFound_def)
  have gm: "fst (getBestMove demo midClock (settingsFor Hard 3 1500) 0 io0) = Inr (Some (toAIMove quietMate))"
    using M [THEN conjunct2, THEN conjunct1] demo_setup(1,2)
    by (simp add: demo_setup(3-6) demo_runs_mid demo_bests lastFound_def)
  have r: "rootLoop demo midClock (settingsFor Hard 3 1500) 1500 2 True 0 [grab, quietMate]
     (NegInfinity, None) (ioAt 6 0) = ((NegInfinity, None), ioAt 7 0)"
    using M [THEN conjunct2, THEN conjunct2, THEN conjunct2, THEN conjunct2, THEN conjunct1] c6(1) t
    by simp
  have dp: "fst (deepen demo midClock (settingsFor Hard 3 1500) 1500 True 0 [grab, quietMate] 2
     (Some quietMate) (ioAt 6 0)) = Some quietMate"
    using M [THEN conjunct2, THEN conjunct2, THEN conjunct2, THEN conjunct2, THEN conjunct2,
        THEN conjunct1] c6(2)
    by simp
  have n: "now jumpClock (Suc (clock_reads io0)) > now jumpClock (clock_reads io0) +
     (if timeLimitMs (settingsFor Hard 4 1500) = 0 then 300 else timeLimitMs (settingsFor Hard 4 1500))"
    using J [THEN conjunct2, THEN conjunct2, THEN conjunct2, THEN conjunct2, THEN conjunct2,
        THEN conjunct2] h4 j
    by (simp add: demo_def settingsFor_def)
  show ?thesis
    using demo_setup(1,2) demo_runs_late gl demo_runs_mid gm c6(1) r dp j n by simp
qed

text \<open>
  C5. At the hard difficulty, when no clock reading is past the deadline, the
  move selected by the alpha-beta search is the move selected by the unpruned
  full minimax over the same tree, with the same capture-first ordering and
  the same first-strictly-better choice, for the same depth limit.
\<close>

theorem alphabeta_equals_full_minimax:
  "difficulty st = Hard \<Longrightarrow>
   (\<forall>k. now rt k \<le> now rt (clock_reads s) + (if timeLimitMs st = 0 then 300 else timeLimitMs st)) \<Longrightarrow>
     fst (getBestMove ch rt st game s) = Inr (map_option toAIMove (fullSearch ch (depth st) game))"
  by (rule hard_search_is_fullSearch)

theorem alphabeta_equals_full_minimax_witness:
  "difficulty (settingsFor Hard 3 1500) = Hard \<and>
   (\<forall>k. now stillClock k \<le> now stillClock (clock_reads io0) +
      (if timeLimitMs (settingsFor Hard 3 1500) = 0 then 300 else timeLimitMs (settingsFor Hard 3 1500))) \<and>
   fst (getBestMove demo stillClock (settingsFor Hard 3 1500) 0 io0) = Inr (Some (toAIMove grab)) \<and>
   fullSearch demo (depth (settingsFor Hard 3 1500)) 0 = Some grab"
proof -
  have h: "difficulty (settingsFor Hard 3 1500) = Hard" by (simp add: settingsFor_def)
  have c: "\<forall>k. now stillClock k \<le> now stillClock (clock_reads io0) +
      (if timeLimitMs (settingsFor Hard 3 1500) = 0 then 300 else timeLimitMs (settingsFor Hard 3 1500))"
    by (simp add: stillClock_def settingsFor_def)
  have f: "fullSearch demo (depth (settingsFor Hard 3 1500)) 0 = Some grab"
    using fullSearch_demo by (simp add: settingsFor_def)
  show ?thesis
    using h c f alphabeta_equals_full_minimax [OF h c, of demo 0] by simp
qed

text \<open>
  C7, as the code has it. Where the side to move has a mate in one, the rules
  engine behaving as chess does, \<^verbatim>\<open>getBestMove\<close> returns a mating move at
  the medium difficulty (random numbers in \<open>[0, 1)\<close>) and at the hard
  difficulty with a depth of 1 or 2 when no clock reading is past the
  deadline; and every evaluation of a position that is not checkmate, noise
  included, lies strictly between \<open>-1000\<close> and \<open>1000\<close>.
\<close>

theorem mate_in_one_selected:
  "chessRules ch \<Longrightarrow> \<exists>m \<in> set (moves ch game). isMate ch game m \<Longrightarrow>
   (difficulty st = Medium \<and> (\<forall>k. 0 \<le> random rt k \<and> random rt k < 1)) \<or>
   (difficulty st = Hard \<and> (depth st = 1 \<or> depth st = 2) \<and>
      (\<forall>k. now rt k \<le> now rt (clock_reads s)
                         + (if timeLimitMs st = 0 then 300 else timeLimitMs st))) \<Longrightarrow>
   (\<exists>m \<in> set (moves ch game). isMate ch game m \<and>
      fst (getBestMove ch rt st game s) = Inr (Some (toAIMove m))) \<and>
   (\<forall>g s'. \<not> isCheckmate ch g \<longrightarrow> \<bar>fst (evaluatePosition ch rt st g s')\<bar> < 1000)"
proof -
  assume rules: "chessRules ch" and mate: "\<exists>m \<in> set (moves ch game). isMate ch game m"
    and tier: "(difficulty st = Medium \<and> (\<forall>k. 0 \<le> random rt k \<and> random rt k < 1)) \<or>
      (difficulty st = Hard \<and> (depth st = 1 \<or> depth st = 2) \<and>
        (\<forall>k. now rt k \<le> now rt (clock_reads s)
                         + (if timeLimitMs st = 0 then 300 else timeLimitMs st)))"
  from tier show ?thesis
  proof
    assume m: "difficulty st = Medium \<and> (\<forall>k. 0 \<le> random rt k \<and> random rt k < 1)"
    then show ?thesis
      using medium_mate_in_one [OF rules mate, of st rt s] evaluatePosition_quiet [OF rules, of _ rt st]
      by blast
  next
    assume h: "difficulty st = Hard \<and> (depth st = 1 \<or> depth st = 2) \<and>
        (\<forall>k. now rt k \<le> now rt (clock_reads s)
                         + (if timeLimitMs st = 0 then 300 else timeLimitMs st))"
    then show ?thesis
      using hard_mate_in_one [OF rules mate, of st rt s]
        evaluatePosition_quiet_hard [OF rules, of _ st rt]
      by blast
  qed
qed

theorem mate_in_one_selected_witness:
  "chessRules demo \<and> (\<exists>m \<in> set (moves demo 0). isMate demo 0 m) \<and>
   (\<exists>m \<in> set (moves demo 0). isMate demo 0 m \<and>
      fst (getBestMove demo stillClock (settingsFor Medium 3 800) 0 io0) = Inr (Some (toAIMove m))) \<and>
   (\<exists>m \<in> set (moves demo 0). isMate demo 0 m \<and>
      fst (getBestMove demo stillClock (settingsFor Hard 2 1500) 0 io0) = Inr (Some (toAIMove m)))"
proof -
  have med: "difficulty (settingsFor Medium 3 800) = Medium \<and>
      (\<forall>k. 0 \<le> random stillClock k \<and> random stillClock k < 1)"
    by (simp add: settingsFor_def stillClock_def)
  have hard: "difficulty (settingsFor Hard 2 1500) = Hard \<and>
      (depth (settingsFor Hard 2 1500) = 1 \<or> depth (settingsFor Hard 2 1500) = 2) \<and>
      (\<forall>k. now stillClock k \<le> now stillClock (clock_reads io0)
         + (if timeLimitMs (settingsFor Hard 2 1500) = 0 then 300
            else timeLimitMs (settingsFor Hard 2 1500)))"
    by (simp add: settingsFor_def stillClock_def)
  show ?thesis
    using chessRules_demo demo_has_mate
      mate_in_one_selected [OF chessRules_demo demo_has_mate disjI1, OF med, of io0]
      mate_in_one_selected [OF chessRules_demo demo_has_mate disjI2, OF hard]
    by simp
qed

text \<open>
  The claim as stated fails at the hard difficulty from depth 3 on. The mate
  score does not tell a mate in one from a mate in three plies, and the first
  strictly better root move wins: the capture \<open>grab\<close>, ordered first, reaches
  \<open>1000\<close> at depth 3 through a forced mate, and the quiet mating move that
  follows it is not strictly better.
\<close>

theorem mate_in_one_missed_counterexample:
  "moves demo 0 = [quietMate, grab] \<and>
   isCheckmate demo (make_move demo 0 quietMate) \<and>
   difficulty (settingsFor Hard 3 1500) = Hard \<and> 1 \<le> depth (settingsFor Hard 3 1500) \<and>
   fst (getBestMove demo stillClock (settingsFor Hard 3 1500) 0 io0) = Inr (Some (toAIMove grab)) \<and>
   toAIMove grab \<noteq> toAIMove quietMate \<and>
   \<not> isCheckmate demo (make_move demo 0 grab)"
  by code_simp

end
